theory Spec2Isabelle
  imports Main "HOL-Library.Sublist"
begin

section \<open>The disassembler's formatter of z80.cpp\<close>

text \<open>
  The theory embeds \<^verbatim>\<open>src/z80.cpp\<close>: the name tables, the bounded
  \<^verbatim>\<open>output_buff\<close> and \<^verbatim>\<open>disassembler_base::on_format_impl\<close>.
  Every function keeps the name it has in the source; a C++ overload gets a suffix
  naming its parameter type.
\<close>

subsection \<open>Enumerations\<close>

text \<open>
  Modelled from the spec: the enumerations are declared in \<^verbatim>\<open>z80.h\<close>, which is
  not among the sources. The spec gives each as a closed set, and the enumerators are
  the labels of the exhaustive switches of the name tables below. An enumerator
  \<^verbatim>\<open>reg::b\<close> is written \<open>reg_b\<close>. The datatypes are closed, so the
  \<^verbatim>\<open>assert(0)\<close> behind each switch has no value that reaches it.
\<close>

datatype reg = reg_b | reg_c | reg_d | reg_e | reg_h | reg_l | reg_at_hl | reg_a

datatype index_regp = index_regp_hl | index_regp_ix | index_regp_iy

datatype regp = regp_bc | regp_de | regp_hl | regp_sp

datatype alu = alu_add | alu_adc | alu_sub | alu_sbc | alu_and_a | alu_xor_a | alu_or_a | alu_cp

datatype block_ld = block_ld_ldi | block_ld_ldd | block_ld_ldir | block_ld_lddr

datatype condition = condition_nz | condition_z | condition_nc | condition_c
  | condition_po | condition_pe | condition_p | condition_m

text \<open>
  Modelled from the spec: \<^verbatim>\<open>fast_u8\<close> and \<^verbatim>\<open>fast_u16\<close> are declared in
  \<^verbatim>\<open>z80.h\<close>. They hold a byte and a word in an unsigned type of at least 8 and 16
  bits, whose exact width the platform chooses; a value is its natural number, and a
  bound on it is stated where a property needs one.
\<close>

type_synonym fast_u8 = nat
type_synonym fast_u16 = nat

subsection \<open>Name tables\<close>

fun get_reg_name :: "reg \<Rightarrow> string" where
  "get_reg_name reg_b = ''b''"
| "get_reg_name reg_c = ''c''"
| "get_reg_name reg_d = ''d''"
| "get_reg_name reg_e = ''e''"
| "get_reg_name reg_h = ''h''"
| "get_reg_name reg_l = ''l''"
| "get_reg_name reg_at_hl = ''(hl)''"
| "get_reg_name reg_a = ''a''"

fun get_reg_name_irp :: "index_regp \<Rightarrow> string" where
  "get_reg_name_irp index_regp_hl = ''hl''"
| "get_reg_name_irp index_regp_ix = ''ix''"
| "get_reg_name_irp index_regp_iy = ''iy''"

fun get_reg_name_regp :: "regp \<Rightarrow> index_regp \<Rightarrow> string" where
  "get_reg_name_regp regp_bc irp = ''bc''"
| "get_reg_name_regp regp_de irp = ''de''"
| "get_reg_name_regp regp_hl irp = get_reg_name_irp irp"
| "get_reg_name_regp regp_sp irp = ''sp''"

fun get_mnemonic :: "alu \<Rightarrow> string" where
  "get_mnemonic alu_add = ''add''"
| "get_mnemonic alu_adc = ''adc''"
| "get_mnemonic alu_sub = ''sub''"
| "get_mnemonic alu_sbc = ''sbc''"
| "get_mnemonic alu_and_a = ''and''"
| "get_mnemonic alu_xor_a = ''xor''"
| "get_mnemonic alu_or_a = ''or''"
| "get_mnemonic alu_cp = ''cp''"

fun get_mnemonic_block_ld :: "block_ld \<Rightarrow> string" where
  "get_mnemonic_block_ld block_ld_ldi = ''ldi''"
| "get_mnemonic_block_ld block_ld_ldd = ''ldd''"
| "get_mnemonic_block_ld block_ld_ldir = ''ldir''"
| "get_mnemonic_block_ld block_ld_lddr = ''lddr''"

definition is_two_operand_alu_instr :: "alu \<Rightarrow> bool" where
  "is_two_operand_alu_instr k \<longleftrightarrow> k = alu_add \<or> k = alu_adc \<or> k = alu_sbc"

fun get_index_reg_name :: "index_regp \<Rightarrow> string" where
  "get_index_reg_name index_regp_hl = ''hl''"
| "get_index_reg_name index_regp_ix = ''ix''"
| "get_index_reg_name index_regp_iy = ''iy''"

fun get_condition_name :: "condition \<Rightarrow> string" where
  "get_condition_name condition_nz = ''nz''"
| "get_condition_name condition_z = ''z''"
| "get_condition_name condition_nc = ''nc''"
| "get_condition_name condition_c = ''c''"
| "get_condition_name condition_po = ''po''"
| "get_condition_name condition_pe = ''pe''"
| "get_condition_name condition_p = ''p''"
| "get_condition_name condition_m = ''m''"

subsection \<open>The conversions of \<^verbatim>\<open>snprintf\<close>\<close>

text \<open>
  The C library's \<^verbatim>\<open>snprintf\<close> is used with three formats. \<open>hex_of\<close> and
  \<open>dec_of\<close> are the digits of \<^verbatim>\<open>%x\<close> and \<^verbatim>\<open>%d\<close>, most significant first;
  \<open>zero_pad\<close> is the flag \<^verbatim>\<open>0\<close> with a minimum field width; \<open>snprintf\<close> is the
  bound of the 32-byte pad, which keeps 31 characters and the terminator.
\<close>

abbreviation NUL :: char where
  "NUL \<equiv> CHR 0x00"

definition hex_digit :: "nat \<Rightarrow> char" where
  "hex_digit n = ''0123456789abcdef'' ! (n mod 16)"

definition dec_digit :: "nat \<Rightarrow> char" where
  "dec_digit n = ''0123456789'' ! (n mod 10)"

fun hex_of :: "nat \<Rightarrow> string" where
  "hex_of n = (if n < 16 then [hex_digit n] else hex_of (n div 16) @ [hex_digit n])"

fun dec_of :: "nat \<Rightarrow> string" where
  "dec_of n = (if n < 10 then [dec_digit n] else dec_of (n div 10) @ [dec_digit n])"

declare hex_of.simps [simp del]
declare dec_of.simps [simp del]

definition zero_pad :: "nat \<Rightarrow> string \<Rightarrow> string" where
  "zero_pad w s = replicate (w - length s) (CHR ''0'') @ s"

definition snprintf :: "nat \<Rightarrow> string \<Rightarrow> string" where
  "snprintf n s = take (n - 1) s"

definition static_cast_unsigned :: "nat \<Rightarrow> nat" where
  \<comment> \<open>\<^verbatim>\<open>static_cast<unsigned>\<close>, with \<^verbatim>\<open>unsigned\<close> 32 bits wide\<close>
  "static_cast_unsigned n = n mod 2 ^ 32"

definition format_02x :: "nat \<Rightarrow> string" where
  \<comment> \<open>\<^verbatim>\<open>"0x%02x"\<close>\<close>
  "format_02x n = ''0x'' @ zero_pad 2 (hex_of n)"

definition format_04x :: "nat \<Rightarrow> string" where
  \<comment> \<open>\<^verbatim>\<open>"0x%04x"\<close>\<close>
  "format_04x n = ''0x'' @ zero_pad 4 (hex_of n)"

definition format_plus_d :: "int \<Rightarrow> string" where
  \<comment> \<open>\<^verbatim>\<open>"%+d"\<close>\<close>
  "format_plus_d d = (if d < 0 then ''-'' else ''+'') @ dec_of (nat \<bar>d\<bar>)"

subsection \<open>The output buffer\<close>

text \<open>
  A failed \<^verbatim>\<open>assert\<close> aborts the program; reading an argument of the wrong type,
  or past the end of the argument array, is undefined behaviour. Both are results of
  the model.
\<close>

datatype error = Assertion_failed | Undefined_behaviour

definition and_then :: "error + 'a \<Rightarrow> ('a \<Rightarrow> error + 'b) \<Rightarrow> error + 'b" where
  "and_then r f = (case r of Inl e \<Rightarrow> Inl e | Inr x \<Rightarrow> f x)"

text \<open>
  \<^verbatim>\<open>output_buff\<close>: the field \<^verbatim>\<open>size\<close> is \<open>buff_size\<close>; \<open>buff\<close> holds the cells
  \<^verbatim>\<open>buff[0 .. size-1]\<close> written so far. The cells from \<^verbatim>\<open>size\<close> on are not
  initialised in the source and are not represented.
\<close>

record output_buff =
  buff_size :: nat
  buff :: string

definition max_size :: nat where
  "max_size = 32"

definition new_output_buff :: output_buff where
  "new_output_buff = \<lparr>buff_size = 0, buff = []\<rparr>"

definition get_buff :: "output_buff \<Rightarrow> string" where
  "get_buff out = buff out"

definition append_char :: "char \<Rightarrow> output_buff \<Rightarrow> error + output_buff" where
  "append_char c out =
     (if buff_size out < max_size
      then Inr (out\<lparr>buff := buff out @ [c], buff_size := buff_size out + 1\<rparr>)
      else Inl Assertion_failed)"

fun append_str :: "string \<Rightarrow> output_buff \<Rightarrow> error + output_buff" where
  "append_str [] out = Inr out"
| "append_str (c # p) out =
     (if c = NUL then Inr out else and_then (append_char c out) (append_str p))"

definition append_u8 :: "fast_u8 \<Rightarrow> output_buff \<Rightarrow> error + output_buff" where
  "append_u8 n out = append_str (snprintf 32 (format_02x (static_cast_unsigned n))) out"

definition append_u16 :: "fast_u16 \<Rightarrow> output_buff \<Rightarrow> error + output_buff" where
  "append_u16 n out = append_str (snprintf 32 (format_04x (static_cast_unsigned n))) out"

definition append_disp :: "int \<Rightarrow> output_buff \<Rightarrow> error + output_buff" where
  "append_disp d out = append_str (snprintf 32 (format_plus_d d)) out"

subsection \<open>The argument stream\<close>

text \<open>
  The source receives \<^verbatim>\<open>const void *args[]\<close> and \<^verbatim>\<open>get_arg<T>\<close> reads the
  next pointer as a \<^verbatim>\<open>T\<close>, unchecked. Here each argument carries its type, and
  reading it at another type, or reading past the last argument, is
  \<open>Undefined_behaviour\<close>. There is one \<open>get_arg\<close> for each \<^verbatim>\<open>T\<close> the source uses.
  An argument of type \<^verbatim>\<open>int\<close> is an integer: the source does no arithmetic on it,
  and its range plays no part.
\<close>

datatype arg =
    Arg_alu alu
  | Arg_reg reg
  | Arg_index_regp index_regp
  | Arg_regp regp
  | Arg_fast_u8 fast_u8
  | Arg_fast_u16 fast_u16
  | Arg_condition condition
  | Arg_int int
  | Arg_block_ld block_ld

fun get_arg_alu :: "arg list \<Rightarrow> error + alu \<times> arg list" where
  "get_arg_alu (Arg_alu k # args) = Inr (k, args)"
| "get_arg_alu _ = Inl Undefined_behaviour"

fun get_arg_reg :: "arg list \<Rightarrow> error + reg \<times> arg list" where
  "get_arg_reg (Arg_reg r # args) = Inr (r, args)"
| "get_arg_reg _ = Inl Undefined_behaviour"

fun get_arg_index_regp :: "arg list \<Rightarrow> error + index_regp \<times> arg list" where
  "get_arg_index_regp (Arg_index_regp irp # args) = Inr (irp, args)"
| "get_arg_index_regp _ = Inl Undefined_behaviour"

fun get_arg_regp :: "arg list \<Rightarrow> error + regp \<times> arg list" where
  "get_arg_regp (Arg_regp rp # args) = Inr (rp, args)"
| "get_arg_regp _ = Inl Undefined_behaviour"

fun get_arg_fast_u8 :: "arg list \<Rightarrow> error + fast_u8 \<times> arg list" where
  "get_arg_fast_u8 (Arg_fast_u8 n # args) = Inr (n, args)"
| "get_arg_fast_u8 _ = Inl Undefined_behaviour"

fun get_arg_fast_u16 :: "arg list \<Rightarrow> error + fast_u16 \<times> arg list" where
  "get_arg_fast_u16 (Arg_fast_u16 nn # args) = Inr (nn, args)"
| "get_arg_fast_u16 _ = Inl Undefined_behaviour"

fun get_arg_condition :: "arg list \<Rightarrow> error + condition \<times> arg list" where
  "get_arg_condition (Arg_condition cc # args) = Inr (cc, args)"
| "get_arg_condition _ = Inl Undefined_behaviour"

fun get_arg_int :: "arg list \<Rightarrow> error + int \<times> arg list" where
  "get_arg_int (Arg_int d # args) = Inr (d, args)"
| "get_arg_int _ = Inl Undefined_behaviour"

fun get_arg_block_ld :: "arg list \<Rightarrow> error + block_ld \<times> arg list" where
  "get_arg_block_ld (Arg_block_ld k # args) = Inr (k, args)"
| "get_arg_block_ld _ = Inl Undefined_behaviour"

subsection \<open>The format interpreter\<close>

definition sign_extend8 :: "fast_u8 \<Rightarrow> int" where
  \<comment> \<open>Modelled from the spec: \<^verbatim>\<open>sign_extend8\<close> is defined in \<^verbatim>\<open>z80.h\<close>, which is
      not among the sources. The spec calls the displacement a signed byte offset:
      the low eight bits, read in two's complement.\<close>
  "sign_extend8 n = (if n mod 256 < 128 then int (n mod 256) else int (n mod 256) - 256)"

text \<open>
  \<open>format_directive\<close> is the body of the loop of \<^verbatim>\<open>on_format_impl\<close>: the switch on
  the character \<^verbatim>\<open>*p\<close>. It returns the arguments left and the buffer.
\<close>

definition format_directive ::
  "char \<Rightarrow> arg list \<Rightarrow> output_buff \<Rightarrow> error + arg list \<times> output_buff" where
  "format_directive c args out =
    (if c = CHR ''A'' then
       and_then (get_arg_alu args) (\<lambda>(k, args1).
       and_then (append_str (get_mnemonic k) out) (\<lambda>out1.
       if is_two_operand_alu_instr k
       then and_then (append_str '' a,'' out1) (\<lambda>out2. Inr (args1, out2))
       else Inr (args1, out1)))
     else if c = CHR ''R'' then
       and_then (get_arg_reg args) (\<lambda>(r, args1).
       and_then (get_arg_index_regp args1) (\<lambda>(irp, args2).
       and_then (get_arg_fast_u8 args2) (\<lambda>(d, args3).
       if r \<noteq> reg_at_hl \<or> irp = index_regp_hl
       then and_then (append_str (get_reg_name r) out) (\<lambda>out1. Inr (args3, out1))
       else
         and_then (append_char (CHR ''('') out) (\<lambda>out1.
         and_then (append_str (get_index_reg_name irp) out1) (\<lambda>out2.
         and_then (append_disp (sign_extend8 d) out2) (\<lambda>out3.
         and_then (append_char (CHR '')'') out3) (\<lambda>out4. Inr (args3, out4))))))))
     else if c = CHR ''P'' then
       and_then (get_arg_regp args) (\<lambda>(rp, args1).
       and_then (get_arg_index_regp args1) (\<lambda>(irp, args2).
       and_then (append_str (get_reg_name_regp rp irp) out) (\<lambda>out1. Inr (args2, out1))))
     else if c = CHR ''N'' then
       and_then (get_arg_fast_u8 args) (\<lambda>(n, args1).
       and_then (append_u8 n out) (\<lambda>out1. Inr (args1, out1)))
     else if c = CHR ''W'' then
       and_then (get_arg_fast_u16 args) (\<lambda>(nn, args1).
       and_then (append_u16 nn out) (\<lambda>out1. Inr (args1, out1)))
     else if c = CHR ''C'' then
       and_then (get_arg_condition args) (\<lambda>(cc, args1).
       and_then (append_str (get_condition_name cc) out) (\<lambda>out1. Inr (args1, out1)))
     else if c = CHR ''D'' then
       and_then (get_arg_int args) (\<lambda>(d, args1).
       and_then (append_char (CHR ''$'') out) (\<lambda>out1.
       and_then (append_disp d out1) (\<lambda>out2. Inr (args1, out2))))
     else if c = CHR ''L'' then
       and_then (get_arg_block_ld args) (\<lambda>(k, args1).
       and_then (append_str (get_mnemonic_block_ld k) out) (\<lambda>out1. Inr (args1, out1)))
     else
       and_then (append_char c out) (\<lambda>out1. Inr (args, out1)))"

text \<open>
  The loop \<^verbatim>\<open>for(p = fmt; *p != '\0'; ++p)\<close>. The end of the list is the terminator
  of the C string, and so is a \<open>NUL\<close> inside it.
\<close>

fun format_loop ::
  "string \<Rightarrow> arg list \<Rightarrow> output_buff \<Rightarrow> error + arg list \<times> output_buff" where
  "format_loop [] args out = Inr (args, out)"
| "format_loop (c # p) args out =
     (if c = NUL then Inr (args, out)
      else and_then (format_directive c args out) (\<lambda>(args1, out1). format_loop p args1 out1))"

text \<open>
  The sink \<^verbatim>\<open>on_output\<close> is a virtual member declared in \<^verbatim>\<open>z80.h\<close>. The state of
  the disassembler is the log of the lines the sink has received, oldest first, and a
  call of the sink adds the line it is passed.
\<close>

type_synonym sink = "string list"

definition on_output :: "string \<Rightarrow> sink \<Rightarrow> sink" where
  \<comment> \<open>Modelled from the spec: the output callback of \<^verbatim>\<open>z80.h\<close>, which is not among
      the sources; it receives one finished line for each call.\<close>
  "on_output line log = log @ [line]"

definition on_format_impl :: "string \<Rightarrow> arg list \<Rightarrow> sink \<Rightarrow> error + sink" where
  "on_format_impl fmt args log =
     and_then (format_loop fmt args new_output_buff) (\<lambda>(args1, out).
     and_then (append_char NUL out) (\<lambda>out1.
     Inr (on_output (get_buff out1) log)))"

subsection \<open>The text of a line\<close>

text \<open>
  The definitions of this subsection are not functions of the source. They name what
  the claims speak of: the characters of a C string, the directive characters, the
  value a run of digits denotes, and the text a line is made of when the buffer is
  left out of the picture.
\<close>

definition c_str :: "string \<Rightarrow> string" where
  \<comment> \<open>the characters of a C string: those before the first terminator\<close>
  "c_str s = takeWhile (\<lambda>c. c \<noteq> NUL) s"

definition is_directive :: "char \<Rightarrow> bool" where
  "is_directive c \<longleftrightarrow> c \<in> set ''ARPNWCDL''"

definition digit_value :: "char \<Rightarrow> nat" where
  \<comment> \<open>the value of one digit, \<^verbatim>\<open>0\<close> to \<^verbatim>\<open>9\<close> and \<^verbatim>\<open>a\<close> to \<^verbatim>\<open>f\<close>\<close>
  "digit_value c =
     (let k = (of_char c :: nat) in if 48 \<le> k \<and> k \<le> 57 then k - 48 else k - 87)"

definition hex_value :: "string \<Rightarrow> nat" where
  "hex_value s = foldl (\<lambda>a c. 16 * a + digit_value c) 0 s"

definition dec_value :: "string \<Rightarrow> nat" where
  "dec_value s = foldl (\<lambda>a c. 10 * a + digit_value c) 0 s"

text \<open>
  \<open>directive_text c args\<close> is the text that the switch case of the character \<open>c\<close>
  appends, as one string, with the arguments the case leaves; it is \<open>None\<close> when the
  stream does not start with the arguments the case reads.
\<close>

definition directive_text :: "char \<Rightarrow> arg list \<Rightarrow> (string \<times> arg list) option" where
  "directive_text c args =
    (if c = CHR ''A'' then
       (case args of
          Arg_alu k # rest \<Rightarrow>
            Some (get_mnemonic k @ (if is_two_operand_alu_instr k then '' a,'' else []), rest)
        | _ \<Rightarrow> None)
     else if c = CHR ''R'' then
       (case args of
          Arg_reg r # Arg_index_regp irp # Arg_fast_u8 d # rest \<Rightarrow>
            Some (if r = reg_at_hl \<and> irp \<noteq> index_regp_hl
                  then ''('' @ get_index_reg_name irp
                       @ snprintf 32 (format_plus_d (sign_extend8 d)) @ '')''
                  else get_reg_name r, rest)
        | _ \<Rightarrow> None)
     else if c = CHR ''P'' then
       (case args of
          Arg_regp rp # Arg_index_regp irp # rest \<Rightarrow> Some (get_reg_name_regp rp irp, rest)
        | _ \<Rightarrow> None)
     else if c = CHR ''N'' then
       (case args of
          Arg_fast_u8 n # rest \<Rightarrow>
            Some (snprintf 32 (format_02x (static_cast_unsigned n)), rest)
        | _ \<Rightarrow> None)
     else if c = CHR ''W'' then
       (case args of
          Arg_fast_u16 nn # rest \<Rightarrow>
            Some (snprintf 32 (format_04x (static_cast_unsigned nn)), rest)
        | _ \<Rightarrow> None)
     else if c = CHR ''C'' then
       (case args of
          Arg_condition cc # rest \<Rightarrow> Some (get_condition_name cc, rest)
        | _ \<Rightarrow> None)
     else if c = CHR ''D'' then
       (case args of
          Arg_int d # rest \<Rightarrow> Some (''$'' @ snprintf 32 (format_plus_d d), rest)
        | _ \<Rightarrow> None)
     else if c = CHR ''L'' then
       (case args of
          Arg_block_ld k # rest \<Rightarrow> Some (get_mnemonic_block_ld k, rest)
        | _ \<Rightarrow> None)
     else Some ([c], args))"

text \<open>
  \<open>line_text fmt args\<close> is the text of the whole line, directive after directive, with
  the arguments left at the end of the format string.
\<close>

fun line_text :: "string \<Rightarrow> arg list \<Rightarrow> (string \<times> arg list) option" where
  "line_text [] args = Some ([], args)"
| "line_text (c # p) args =
     (if c = NUL then Some ([], args)
      else case directive_text c args of
             None \<Rightarrow> None
           | Some (t, rest) \<Rightarrow>
               (case line_text p rest of
                  None \<Rightarrow> None
                | Some (ts, rest') \<Rightarrow> Some (t @ ts, rest')))"

definition matching :: "string \<Rightarrow> arg list \<Rightarrow> bool" where
  \<comment> \<open>the argument stream has the arguments the directives read, in order, and no more\<close>
  "matching fmt args \<longleftrightarrow> map_option snd (line_text fmt args) = Some []"

subsection \<open>The buffer and the pads as memory cells\<close>

text \<open>
  \<open>output_buff\<close> above keeps the written cells only. The source declares
  \<^verbatim>\<open>char buff[max_size]\<close> and each \<^verbatim>\<open>char pad[32]\<close> without initialising them,
  so a run starts from whatever these cells hold. The definitions of this subsection
  embed the same functions of \<^verbatim>\<open>z80.cpp\<close> over all the cells: what the arrays
  hold before their first write is an input of the call. \<open>mem_buff\<close> is the whole
  array \<^verbatim>\<open>buff\<close>, of \<open>max_size\<close> cells, and \<^verbatim>\<open>buff[size++] = c\<close> overwrites one
  cell of it.
\<close>

record output_mem =
  mem_size :: nat
  mem_buff :: string

definition new_output_mem :: "string \<Rightarrow> output_mem" where
  \<comment> \<open>the constructor sets \<^verbatim>\<open>size\<close> and leaves the cells as they are\<close>
  "new_output_mem cells = \<lparr>mem_size = 0, mem_buff = cells\<rparr>"

definition get_buff_mem :: "output_mem \<Rightarrow> string" where
  "get_buff_mem m = mem_buff m"

definition append_char_mem :: "char \<Rightarrow> output_mem \<Rightarrow> error + output_mem" where
  "append_char_mem c m =
     (if mem_size m < max_size
      then Inr (m\<lparr>mem_buff := (mem_buff m)[mem_size m := c], mem_size := mem_size m + 1\<rparr>)
      else Inl Assertion_failed)"

fun append_str_mem :: "string \<Rightarrow> output_mem \<Rightarrow> error + output_mem" where
  "append_str_mem [] m = Inr m"
| "append_str_mem (c # p) m =
     (if c = NUL then Inr m else and_then (append_char_mem c m) (append_str_mem p))"

definition snprintf_mem :: "nat \<Rightarrow> string \<Rightarrow> string \<Rightarrow> string" where
  \<comment> \<open>\<^verbatim>\<open>snprintf(pad, n, ...)\<close> on a pad that held \<open>pad\<close>: the characters kept, the
      terminator, and behind it the cells the call did not write\<close>
  "snprintf_mem n s pad = (let t = take (n - 1) s in t @ [NUL] @ drop (length t + 1) pad)"

definition append_u8_mem :: "string \<Rightarrow> fast_u8 \<Rightarrow> output_mem \<Rightarrow> error + output_mem" where
  "append_u8_mem pad n m =
     append_str_mem (snprintf_mem 32 (format_02x (static_cast_unsigned n)) pad) m"

definition append_u16_mem :: "string \<Rightarrow> fast_u16 \<Rightarrow> output_mem \<Rightarrow> error + output_mem" where
  "append_u16_mem pad n m =
     append_str_mem (snprintf_mem 32 (format_04x (static_cast_unsigned n)) pad) m"

definition append_disp_mem :: "string \<Rightarrow> int \<Rightarrow> output_mem \<Rightarrow> error + output_mem" where
  "append_disp_mem pad d m = append_str_mem (snprintf_mem 32 (format_plus_d d) pad) m"

text \<open>
  The switch again, over the cells. A case declares at most one pad; \<open>pad\<close> is what
  that pad holds when the case is entered.
\<close>

definition format_directive_mem ::
  "string \<Rightarrow> char \<Rightarrow> arg list \<Rightarrow> output_mem \<Rightarrow> error + arg list \<times> output_mem" where
  "format_directive_mem pad c args out =
    (if c = CHR ''A'' then
       and_then (get_arg_alu args) (\<lambda>(k, args1).
       and_then (append_str_mem (get_mnemonic k) out) (\<lambda>out1.
       if is_two_operand_alu_instr k
       then and_then (append_str_mem '' a,'' out1) (\<lambda>out2. Inr (args1, out2))
       else Inr (args1, out1)))
     else if c = CHR ''R'' then
       and_then (get_arg_reg args) (\<lambda>(r, args1).
       and_then (get_arg_index_regp args1) (\<lambda>(irp, args2).
       and_then (get_arg_fast_u8 args2) (\<lambda>(d, args3).
       if r \<noteq> reg_at_hl \<or> irp = index_regp_hl
       then and_then (append_str_mem (get_reg_name r) out) (\<lambda>out1. Inr (args3, out1))
       else
         and_then (append_char_mem (CHR ''('') out) (\<lambda>out1.
         and_then (append_str_mem (get_index_reg_name irp) out1) (\<lambda>out2.
         and_then (append_disp_mem pad (sign_extend8 d) out2) (\<lambda>out3.
         and_then (append_char_mem (CHR '')'') out3) (\<lambda>out4. Inr (args3, out4))))))))
     else if c = CHR ''P'' then
       and_then (get_arg_regp args) (\<lambda>(rp, args1).
       and_then (get_arg_index_regp args1) (\<lambda>(irp, args2).
       and_then (append_str_mem (get_reg_name_regp rp irp) out) (\<lambda>out1. Inr (args2, out1))))
     else if c = CHR ''N'' then
       and_then (get_arg_fast_u8 args) (\<lambda>(n, args1).
       and_then (append_u8_mem pad n out) (\<lambda>out1. Inr (args1, out1)))
     else if c = CHR ''W'' then
       and_then (get_arg_fast_u16 args) (\<lambda>(nn, args1).
       and_then (append_u16_mem pad nn out) (\<lambda>out1. Inr (args1, out1)))
     else if c = CHR ''C'' then
       and_then (get_arg_condition args) (\<lambda>(cc, args1).
       and_then (append_str_mem (get_condition_name cc) out) (\<lambda>out1. Inr (args1, out1)))
     else if c = CHR ''D'' then
       and_then (get_arg_int args) (\<lambda>(d, args1).
       and_then (append_char_mem (CHR ''$'') out) (\<lambda>out1.
       and_then (append_disp_mem pad d out1) (\<lambda>out2. Inr (args1, out2))))
     else if c = CHR ''L'' then
       and_then (get_arg_block_ld args) (\<lambda>(k, args1).
       and_then (append_str_mem (get_mnemonic_block_ld k) out) (\<lambda>out1. Inr (args1, out1)))
     else
       and_then (append_char_mem c out) (\<lambda>out1. Inr (args, out1)))"

text \<open>
  The loop, with the position \<open>i\<close> of the character: \<open>pads i\<close> is what the pad holds
  when the character at position \<open>i\<close> is interpreted.
\<close>

fun format_loop_mem ::
  "(nat \<Rightarrow> string) \<Rightarrow> nat \<Rightarrow> string \<Rightarrow> arg list \<Rightarrow> output_mem
     \<Rightarrow> error + arg list \<times> output_mem" where
  "format_loop_mem pads i [] args out = Inr (args, out)"
| "format_loop_mem pads i (c # p) args out =
     (if c = NUL then Inr (args, out)
      else and_then (format_directive_mem (pads i) c args out)
             (\<lambda>(args1, out1). format_loop_mem pads (i + 1) p args1 out1))"

definition c_string_at :: "string \<Rightarrow> error + string" where
  \<comment> \<open>Modelled from the spec: the sink is passed a pointer and receives a
      null-terminated line, the characters from the pointer up to the first terminator
      and the terminator; reading on past the last cell is undefined behaviour.\<close>
  "c_string_at cells =
     (if NUL \<in> set cells then Inr (c_str cells @ [NUL]) else Inl Undefined_behaviour)"

definition on_format_impl_mem ::
  "string \<Rightarrow> (nat \<Rightarrow> string) \<Rightarrow> string \<Rightarrow> arg list \<Rightarrow> sink \<Rightarrow> error + sink" where
  "on_format_impl_mem cells pads fmt args log =
     and_then (format_loop_mem pads 0 fmt args (new_output_mem cells)) (\<lambda>(args1, out).
     and_then (append_char_mem NUL out) (\<lambda>out1.
     and_then (c_string_at (get_buff_mem out1)) (\<lambda>line.
     Inr (on_output line log))))"

text \<open>
  The written cells of a buffer in memory, as an \<open>output_buff\<close>, and the shape of a
  buffer whose array has \<open>max_size\<close> cells. \<open>same_effect\<close> and \<open>same_step\<close> say that
  an operation on the cells and one on the written cells end alike.
\<close>

definition written :: "output_mem \<Rightarrow> output_buff" where
  "written m = \<lparr>buff_size = mem_size m, buff = take (mem_size m) (mem_buff m)\<rparr>"

definition mem_ok :: "output_mem \<Rightarrow> bool" where
  "mem_ok m \<longleftrightarrow> mem_size m \<le> max_size \<and> length (mem_buff m) = max_size"

definition same_effect :: "error + output_mem \<Rightarrow> error + output_buff \<Rightarrow> bool" where
  "same_effect r s =
     (case r of Inl e \<Rightarrow> s = Inl e | Inr m \<Rightarrow> mem_ok m \<and> s = Inr (written m))"

definition same_step ::
  "error + arg list \<times> output_mem \<Rightarrow> error + arg list \<times> output_buff \<Rightarrow> bool" where
  "same_step r s =
     (case r of Inl e \<Rightarrow> s = Inl e | Inr (a, m) \<Rightarrow> mem_ok m \<and> s = Inr (a, written m))"

section \<open>Properties\<close>

subsection \<open>Sequencing and the appends\<close>

lemma and_then_Inl [simp]: "and_then (Inl e) f = Inl e"
  by (simp add: and_then_def)

lemma and_then_Inr [simp]: "and_then (Inr x) f = f x"
  by (simp add: and_then_def)

lemma and_then_assoc: "and_then (and_then r f) g = and_then r (\<lambda>x. and_then (f x) g)"
  by (cases r) simp_all

lemma append_str_Cons: "c \<noteq> NUL \<Longrightarrow> append_str (c # p) out = and_then (append_char c out) (append_str p)"
  by simp

lemma append_char_str: "c \<noteq> NUL \<Longrightarrow> append_char c out = append_str [c] out"
  by (cases "append_char c out") simp_all

lemma append_str_append:
  "NUL \<notin> set s \<Longrightarrow> append_str (s @ t) out = and_then (append_str s out) (append_str t)"
proof (induction s arbitrary: out)
  case Nil
  show ?case by simp
next
  case (Cons c s)
  then have "c \<noteq> NUL" and "\<And>b. append_str (s @ t) b = and_then (append_str s b) (append_str t)"
    by auto
  then show ?case
    by (cases "append_char c out") simp_all
qed

lemma append_str_eq:
  "NUL \<notin> set s \<Longrightarrow> buff_size out \<le> max_size \<Longrightarrow>
   append_str s out =
     (if buff_size out + length s \<le> max_size
      then Inr (out\<lparr>buff := buff out @ s, buff_size := buff_size out + length s\<rparr>)
      else Inl Assertion_failed)"
proof (induction s arbitrary: out)
  case Nil
  then show ?case by simp
next
  case (Cons c s)
  show ?case
  proof (cases "buff_size out < max_size")
    case True
    let ?o = "out\<lparr>buff := buff out @ [c], buff_size := buff_size out + 1\<rparr>"
    have "append_str (c # s) out = append_str s ?o"
      using True Cons.prems by (auto simp: append_char_def)
    moreover have "NUL \<notin> set s" "buff_size ?o \<le> max_size"
      using True Cons.prems by auto
    ultimately show ?thesis
      using Cons.IH [of ?o] by simp
  next
    case False
    then show ?thesis
      using Cons.prems by (auto simp: append_char_def)
  qed
qed

subsection \<open>Digits\<close>

lemma hex_digit_in: "hex_digit n \<in> set ''0123456789abcdef''"
  unfolding hex_digit_def by (rule nth_mem) simp

lemma dec_digit_in: "dec_digit n \<in> set ''0123456789''"
  unfolding dec_digit_def by (rule nth_mem) simp

lemma hex_digit_not_NUL: "hex_digit n \<noteq> NUL"
  using hex_digit_in [of n] by auto

lemma dec_digit_not_NUL: "dec_digit n \<noteq> NUL"
  using dec_digit_in [of n] by auto

lemma digit_value_table:
  "\<forall>k\<in>{..<16::nat}. digit_value (''0123456789abcdef'' ! k) = k"
  by code_simp

lemma digit_value_hex_digit: "digit_value (hex_digit n) = n mod 16"
  using digit_value_table by (simp add: hex_digit_def)

lemma dec_digit_hex_digit: "dec_digit n = hex_digit (n mod 10)"
proof -
  have "\<forall>k\<in>{..<10::nat}. ''0123456789'' ! k = ''0123456789abcdef'' ! k"
    by code_simp
  then show ?thesis
    by (simp add: dec_digit_def hex_digit_def)
qed

lemma digit_value_dec_digit: "digit_value (dec_digit n) = n mod 10"
  by (simp add: dec_digit_hex_digit digit_value_hex_digit)

lemma set_hex_of_gen: "(\<And>k. hex_digit k \<in> S) \<Longrightarrow> set (hex_of n) \<subseteq> S"
proof (induction n rule: hex_of.induct)
  case (1 n)
  then show ?case
    by (subst hex_of.simps) simp
qed

lemma set_hex_of: "set (hex_of n) \<subseteq> set ''0123456789abcdef''"
  by (rule set_hex_of_gen) (rule hex_digit_in)

lemma set_dec_of_gen: "(\<And>k. dec_digit k \<in> S) \<Longrightarrow> set (dec_of n) \<subseteq> S"
proof (induction n rule: dec_of.induct)
  case (1 n)
  then show ?case
    by (subst dec_of.simps) simp
qed

lemma set_dec_of: "set (dec_of n) \<subseteq> set ''0123456789''"
  by (rule set_dec_of_gen) (rule dec_digit_in)

lemma hex_value_snoc: "hex_value (s @ [c]) = 16 * hex_value s + digit_value c"
  by (simp add: hex_value_def)

lemma dec_value_snoc: "dec_value (s @ [c]) = 10 * dec_value s + digit_value c"
  by (simp add: dec_value_def)

lemma hex_value_hex_of: "hex_value (hex_of n) = n"
proof (induction n rule: hex_of.induct)
  case (1 n)
  show ?case
  proof (cases "n < 16")
    case True
    then show ?thesis
      by (subst hex_of.simps) (simp add: hex_value_def digit_value_hex_digit)
  next
    case False
    then show ?thesis
      using 1 by (subst hex_of.simps) (simp add: hex_value_snoc digit_value_hex_digit)
  qed
qed

lemma dec_value_dec_of: "dec_value (dec_of n) = n"
proof (induction n rule: dec_of.induct)
  case (1 n)
  show ?case
  proof (cases "n < 10")
    case True
    then show ?thesis
      by (subst dec_of.simps) (simp add: dec_value_def digit_value_dec_digit)
  next
    case False
    then show ?thesis
      using 1 by (subst dec_of.simps) (simp add: dec_value_snoc digit_value_dec_digit)
  qed
qed

lemma length_hex_of: "n < 16 ^ k \<Longrightarrow> 0 < k \<Longrightarrow> length (hex_of n) \<le> k"
proof (induction k arbitrary: n)
  case 0
  then show ?case by simp
next
  case (Suc k)
  show ?case
  proof (cases "n < 16")
    case True
    then show ?thesis by (subst hex_of.simps) simp
  next
    case False
    with Suc.prems have "n div 16 < 16 ^ k" and "0 < k"
      by (auto simp: less_mult_imp_div_less mult.commute intro: gr0I)
    then have "length (hex_of (n div 16)) \<le> k"
      by (rule Suc.IH)
    with False show ?thesis by (subst hex_of.simps) simp
  qed
qed

lemma length_dec_of: "n < 10 ^ k \<Longrightarrow> 0 < k \<Longrightarrow> length (dec_of n) \<le> k"
proof (induction k arbitrary: n)
  case 0
  then show ?case by simp
next
  case (Suc k)
  show ?case
  proof (cases "n < 10")
    case True
    then show ?thesis by (subst dec_of.simps) simp
  next
    case False
    with Suc.prems have "n div 10 < 10 ^ k" and "0 < k"
      by (auto simp: less_mult_imp_div_less mult.commute intro: gr0I)
    then have "length (dec_of (n div 10)) \<le> k"
      by (rule Suc.IH)
    with False show ?thesis by (subst dec_of.simps) simp
  qed
qed

lemma hex_value_zeros: "hex_value (replicate k (CHR ''0'') @ s) = hex_value s"
proof -
  have "foldl (\<lambda>a c. 16 * a + digit_value c) 0 (replicate k (CHR ''0'')) = 0"
    by (induction k) (simp_all add: digit_value_def)
  then show ?thesis by (simp add: hex_value_def)
qed

subsection \<open>One directive\<close>

lemma NUL_notin_hex_of: "NUL \<notin> set (hex_of n)"
  using set_hex_of [of n] by auto

lemma NUL_notin_dec_of: "NUL \<notin> set (dec_of n)"
  using set_dec_of [of n] by auto

lemma NUL_notin_snprintf: "NUL \<notin> set s \<Longrightarrow> NUL \<notin> set (snprintf n s)"
  by (auto simp: snprintf_def dest: in_set_takeD)

lemma NUL_notin_format_02x: "NUL \<notin> set (format_02x n)"
  by (simp add: format_02x_def zero_pad_def NUL_notin_hex_of)

lemma NUL_notin_format_04x: "NUL \<notin> set (format_04x n)"
  by (simp add: format_04x_def zero_pad_def NUL_notin_hex_of)

lemma NUL_notin_format_plus_d: "NUL \<notin> set (format_plus_d d)"
  by (simp add: format_plus_d_def NUL_notin_dec_of)

lemma NUL_notin_get_reg_name: "NUL \<notin> set (get_reg_name r)"
  by (cases r) simp_all

lemma NUL_notin_get_reg_name_irp: "NUL \<notin> set (get_reg_name_irp irp)"
  by (cases irp) simp_all

lemma NUL_notin_get_index_reg_name: "NUL \<notin> set (get_index_reg_name irp)"
  by (cases irp) simp_all

lemma NUL_notin_get_reg_name_regp: "NUL \<notin> set (get_reg_name_regp rp irp)"
  by (cases rp) (simp_all add: NUL_notin_get_reg_name_irp)

lemma NUL_notin_get_mnemonic: "NUL \<notin> set (get_mnemonic k)"
  by (cases k) simp_all

lemma NUL_notin_get_mnemonic_block_ld: "NUL \<notin> set (get_mnemonic_block_ld k)"
  by (cases k) simp_all

lemma NUL_notin_get_condition_name: "NUL \<notin> set (get_condition_name cc)"
  by (cases cc) simp_all

lemmas NUL_notin =
  NUL_notin_snprintf NUL_notin_format_02x NUL_notin_format_04x NUL_notin_format_plus_d
  NUL_notin_get_reg_name NUL_notin_get_index_reg_name NUL_notin_get_reg_name_regp
  NUL_notin_get_mnemonic NUL_notin_get_mnemonic_block_ld NUL_notin_get_condition_name

lemma format_directive_A:
  "format_directive (CHR ''A'') (Arg_alu k # rest) out =
     and_then (append_str (get_mnemonic k @ (if is_two_operand_alu_instr k then '' a,'' else [])) out)
       (\<lambda>b. Inr (rest, b))"
  by (cases "append_str (get_mnemonic k) out")
     (simp_all add: format_directive_def append_str_append NUL_notin)

lemma format_directive_R_name:
  "r \<noteq> reg_at_hl \<or> irp = index_regp_hl \<Longrightarrow>
   format_directive (CHR ''R'') (Arg_reg r # Arg_index_regp irp # Arg_fast_u8 d # rest) out =
     and_then (append_str (get_reg_name r) out) (\<lambda>b. Inr (rest, b))"
  by (simp add: format_directive_def)

lemma and_then_append_str_append:
  "NUL \<notin> set s \<Longrightarrow>
   and_then (append_str (s @ t) out) f =
     and_then (append_str s out) (\<lambda>b. and_then (append_str t b) f)"
  by (simp add: append_str_append and_then_assoc)

lemma and_then_append_str_Cons:
  "c \<noteq> NUL \<Longrightarrow>
   and_then (append_str (c # t) out) f =
     and_then (append_char c out) (\<lambda>b. and_then (append_str t b) f)"
  by (simp add: and_then_assoc)

lemma and_then_append_str_Nil: "and_then (append_str [] out) f = f out"
  by simp

lemma append_str_parenthesised:
  assumes "NUL \<notin> set n" and "NUL \<notin> set d"
  shows "and_then (append_str (CHR ''('' # n @ d @ [CHR '')'']) out) f =
     and_then (append_char (CHR ''('') out) (\<lambda>b1.
     and_then (append_str n b1) (\<lambda>b2.
     and_then (append_str d b2) (\<lambda>b3.
     and_then (append_char (CHR '')'') b3) f)))"
  using assms
  by (simp only: and_then_append_str_Cons and_then_append_str_append
        and_then_append_str_Nil char.inject simp_thms)

lemma format_directive_R_indexed:
  assumes "irp \<noteq> index_regp_hl"
  shows "format_directive (CHR ''R'')
           (Arg_reg reg_at_hl # Arg_index_regp irp # Arg_fast_u8 d # rest) out =
     and_then (append_str (''('' @ get_index_reg_name irp
                 @ snprintf 32 (format_plus_d (sign_extend8 d)) @ '')'') out)
       (\<lambda>b. Inr (rest, b))"
proof -
  let ?n = "get_index_reg_name irp" and ?d = "snprintf 32 (format_plus_d (sign_extend8 d))"
  have "format_directive (CHR ''R'')
           (Arg_reg reg_at_hl # Arg_index_regp irp # Arg_fast_u8 d # rest) out =
     and_then (append_char (CHR ''('') out) (\<lambda>b1.
     and_then (append_str ?n b1) (\<lambda>b2.
     and_then (append_str ?d b2) (\<lambda>b3.
     and_then (append_char (CHR '')'') b3) (\<lambda>b4. Inr (rest, b4)))))"
    using assms by (simp add: format_directive_def append_disp_def)
  also have "\<dots> = and_then (append_str (CHR ''('' # ?n @ ?d @ [CHR '')'']) out)
                      (\<lambda>b. Inr (rest, b))"
    by (rule append_str_parenthesised [symmetric]) (simp_all add: NUL_notin)
  finally show ?thesis by simp
qed

lemma format_directive_P:
  "format_directive (CHR ''P'') (Arg_regp rp # Arg_index_regp irp # rest) out =
     and_then (append_str (get_reg_name_regp rp irp) out) (\<lambda>b. Inr (rest, b))"
  by (simp add: format_directive_def)

lemma format_directive_N:
  "format_directive (CHR ''N'') (Arg_fast_u8 n # rest) out =
     and_then (append_str (snprintf 32 (format_02x (static_cast_unsigned n))) out)
       (\<lambda>b. Inr (rest, b))"
  by (simp add: format_directive_def append_u8_def)

lemma format_directive_W:
  "format_directive (CHR ''W'') (Arg_fast_u16 nn # rest) out =
     and_then (append_str (snprintf 32 (format_04x (static_cast_unsigned nn))) out)
       (\<lambda>b. Inr (rest, b))"
  by (simp add: format_directive_def append_u16_def)

lemma format_directive_C:
  "format_directive (CHR ''C'') (Arg_condition cc # rest) out =
     and_then (append_str (get_condition_name cc) out) (\<lambda>b. Inr (rest, b))"
  by (simp add: format_directive_def)

lemma format_directive_D:
  "format_directive (CHR ''D'') (Arg_int d # rest) out =
     and_then (append_str (''$'' @ snprintf 32 (format_plus_d d)) out) (\<lambda>b. Inr (rest, b))"
  by (simp add: format_directive_def append_disp_def and_then_assoc)

lemma format_directive_L:
  "format_directive (CHR ''L'') (Arg_block_ld k # rest) out =
     and_then (append_str (get_mnemonic_block_ld k) out) (\<lambda>b. Inr (rest, b))"
  by (simp add: format_directive_def)

lemma format_directive_literal:
  "\<not> is_directive c \<Longrightarrow>
   format_directive c args out = and_then (append_char c out) (\<lambda>b. Inr (args, b))"
  by (simp add: format_directive_def is_directive_def)


lemma directive_text_Some_cases:
  assumes "directive_text c args = Some (t, rest)"
  obtains
    (A) k where "c = CHR ''A''" "args = Arg_alu k # rest"
      "t = get_mnemonic k @ (if is_two_operand_alu_instr k then '' a,'' else [])"
  | (R_name) r irp d where "c = CHR ''R''"
      "args = Arg_reg r # Arg_index_regp irp # Arg_fast_u8 d # rest"
      "r \<noteq> reg_at_hl \<or> irp = index_regp_hl" "t = get_reg_name r"
  | (R_indexed) irp d where "c = CHR ''R''"
      "args = Arg_reg reg_at_hl # Arg_index_regp irp # Arg_fast_u8 d # rest"
      "irp \<noteq> index_regp_hl"
      "t = ''('' @ get_index_reg_name irp @ snprintf 32 (format_plus_d (sign_extend8 d)) @ '')''"
  | (P) rp irp where "c = CHR ''P''" "args = Arg_regp rp # Arg_index_regp irp # rest"
      "t = get_reg_name_regp rp irp"
  | (N) n where "c = CHR ''N''" "args = Arg_fast_u8 n # rest"
      "t = snprintf 32 (format_02x (static_cast_unsigned n))"
  | (W) nn where "c = CHR ''W''" "args = Arg_fast_u16 nn # rest"
      "t = snprintf 32 (format_04x (static_cast_unsigned nn))"
  | (C) cc where "c = CHR ''C''" "args = Arg_condition cc # rest" "t = get_condition_name cc"
  | (D) d where "c = CHR ''D''" "args = Arg_int d # rest"
      "t = ''$'' @ snprintf 32 (format_plus_d d)"
  | (L) k where "c = CHR ''L''" "args = Arg_block_ld k # rest" "t = get_mnemonic_block_ld k"
  | (literal) "\<not> is_directive c" "args = rest" "t = [c]"
proof (cases "is_directive c")
  case False
  with assms have "args = rest" "t = [c]"
    by (simp_all add: directive_text_def is_directive_def)
  with False show ?thesis by (rule literal)
next
  case True
  then consider "c = CHR ''A''" | "c = CHR ''R''" | "c = CHR ''P''" | "c = CHR ''N''"
    | "c = CHR ''W''" | "c = CHR ''C''" | "c = CHR ''D''" | "c = CHR ''L''"
    by (auto simp: is_directive_def)
  then show ?thesis
  proof cases
    case 1
    with assms obtain k where
      "args = Arg_alu k # rest"
      "t = get_mnemonic k @ (if is_two_operand_alu_instr k then '' a,'' else [])"
      by (auto simp: directive_text_def split: list.splits arg.splits)
    with 1 show ?thesis by (rule A)
  next
    case 2
    with assms obtain r irp d where
      args: "args = Arg_reg r # Arg_index_regp irp # Arg_fast_u8 d # rest"
      by (auto simp: directive_text_def split: list.splits arg.splits)
    show ?thesis
    proof (cases "r = reg_at_hl \<and> irp \<noteq> index_regp_hl")
      case True
      with assms 2 args show ?thesis
        by (intro R_indexed [of irp d]) (simp_all add: directive_text_def)
    next
      case False
      with assms 2 args show ?thesis
        by (intro R_name [of r irp d]) (auto simp: directive_text_def)
    qed
  next
    case 3
    with assms obtain rp irp where
      "args = Arg_regp rp # Arg_index_regp irp # rest" "t = get_reg_name_regp rp irp"
      by (auto simp: directive_text_def split: list.splits arg.splits)
    with 3 show ?thesis by (rule P)
  next
    case 4
    with assms obtain n where
      "args = Arg_fast_u8 n # rest"
      "t = snprintf 32 (format_02x (static_cast_unsigned n))"
      by (auto simp: directive_text_def split: list.splits arg.splits)
    with 4 show ?thesis by (rule N)
  next
    case 5
    with assms obtain nn where
      "args = Arg_fast_u16 nn # rest"
      "t = snprintf 32 (format_04x (static_cast_unsigned nn))"
      by (auto simp: directive_text_def split: list.splits arg.splits)
    with 5 show ?thesis by (rule W)
  next
    case 6
    with assms obtain cc where
      "args = Arg_condition cc # rest" "t = get_condition_name cc"
      by (auto simp: directive_text_def split: list.splits arg.splits)
    with 6 show ?thesis by (rule C)
  next
    case 7
    with assms obtain d where
      "args = Arg_int d # rest" "t = ''$'' @ snprintf 32 (format_plus_d d)"
      by (auto simp: directive_text_def split: list.splits arg.splits)
    with 7 show ?thesis by (rule D)
  next
    case 8
    with assms obtain k where
      "args = Arg_block_ld k # rest" "t = get_mnemonic_block_ld k"
      by (auto simp: directive_text_def split: list.splits arg.splits)
    with 8 show ?thesis by (rule L)
  qed
qed

lemma NUL_notin_directive_text:
  assumes "directive_text c args = Some (t, rest)" and "c \<noteq> NUL"
  shows "NUL \<notin> set t"
  using assms
  by (cases rule: directive_text_Some_cases) (auto simp: NUL_notin)

lemma format_directive_Some:
  assumes "directive_text c args = Some (t, rest)" and "c \<noteq> NUL"
  shows "format_directive c args out = and_then (append_str t out) (\<lambda>b. Inr (rest, b))"
  using assms(1)
proof (cases rule: directive_text_Some_cases)
  case literal
  then show ?thesis
    using assms(2) by (simp add: format_directive_literal and_then_assoc)
next
  case (R_name r irp d)
  then show ?thesis
    using format_directive_R_name [of r irp d rest out] by simp
next
  case (R_indexed irp d)
  then show ?thesis
    using format_directive_R_indexed [of irp d rest out] by simp
qed (simp_all only: format_directive_A format_directive_P format_directive_N
       format_directive_W format_directive_C format_directive_D format_directive_L)

lemma format_directive_None:
  assumes "directive_text c args = None"
  shows "format_directive c args out = Inl Undefined_behaviour"
proof -
  from assms consider "c = CHR ''A''" | "c = CHR ''R''" | "c = CHR ''P''" | "c = CHR ''N''"
    | "c = CHR ''W''" | "c = CHR ''C''" | "c = CHR ''D''" | "c = CHR ''L''"
    by (auto simp: directive_text_def split: if_splits)
  then show ?thesis
  proof cases
    case 1
    with assms have "get_arg_alu args = Inl Undefined_behaviour"
      by (cases args rule: get_arg_alu.cases) (simp_all add: directive_text_def)
    with 1 show ?thesis by (simp add: format_directive_def)
  next
    case 2
    show ?thesis
    proof (cases args rule: get_arg_reg.cases)
      case (1 r args1)
      show ?thesis
      proof (cases args1 rule: get_arg_index_regp.cases)
        case (1 irp args2)
        with assms \<open>c = CHR ''R''\<close> \<open>args = Arg_reg r # args1\<close>
        have "get_arg_fast_u8 args2 = Inl Undefined_behaviour"
          by (cases args2 rule: get_arg_fast_u8.cases) (simp_all add: directive_text_def)
        with 1 \<open>c = CHR ''R''\<close> \<open>args = Arg_reg r # args1\<close> show ?thesis
          by (simp add: format_directive_def)
      qed (simp_all add: \<open>c = CHR ''R''\<close> \<open>args = Arg_reg r # args1\<close> format_directive_def)
    qed (simp_all add: 2 format_directive_def)
  next
    case 3
    show ?thesis
    proof (cases args rule: get_arg_regp.cases)
      case (1 rp args1)
      with assms 3 have "get_arg_index_regp args1 = Inl Undefined_behaviour"
        by (cases args1 rule: get_arg_index_regp.cases) (simp_all add: directive_text_def)
      with 1 3 show ?thesis by (simp add: format_directive_def)
    qed (simp_all add: 3 format_directive_def)
  next
    case 4
    with assms have "get_arg_fast_u8 args = Inl Undefined_behaviour"
      by (cases args rule: get_arg_fast_u8.cases) (simp_all add: directive_text_def)
    with 4 show ?thesis by (simp add: format_directive_def)
  next
    case 5
    with assms have "get_arg_fast_u16 args = Inl Undefined_behaviour"
      by (cases args rule: get_arg_fast_u16.cases) (simp_all add: directive_text_def)
    with 5 show ?thesis by (simp add: format_directive_def)
  next
    case 6
    with assms have "get_arg_condition args = Inl Undefined_behaviour"
      by (cases args rule: get_arg_condition.cases) (simp_all add: directive_text_def)
    with 6 show ?thesis by (simp add: format_directive_def)
  next
    case 7
    with assms have "get_arg_int args = Inl Undefined_behaviour"
      by (cases args rule: get_arg_int.cases) (simp_all add: directive_text_def)
    with 7 show ?thesis by (simp add: format_directive_def)
  next
    case 8
    with assms have "get_arg_block_ld args = Inl Undefined_behaviour"
      by (cases args rule: get_arg_block_ld.cases) (simp_all add: directive_text_def)
    with 8 show ?thesis by (simp add: format_directive_def)
  qed
qed


lemma format_loop_line_text:
  assumes "line_text fmt args = Some (ln, rest)" and "buff_size out \<le> max_size"
  shows "format_loop fmt args out =
     (if buff_size out + length ln \<le> max_size
      then Inr (rest, out\<lparr>buff := buff out @ ln, buff_size := buff_size out + length ln\<rparr>)
      else Inl Assertion_failed)"
  using assms
proof (induction fmt arbitrary: args out ln)
  case Nil
  then show ?case by simp
next
  case (Cons c p)
  show ?case
  proof (cases "c = NUL")
    case True
    with Cons.prems show ?thesis by simp
  next
    case False
    with Cons.prems(1) obtain t r1 ts where
      t: "directive_text c args = Some (t, r1)" and
      ts: "line_text p r1 = Some (ts, rest)" and
      tts: "ln = t @ ts"
      by (auto split: option.splits)
    have step: "format_directive c args out = and_then (append_str t out) (\<lambda>b. Inr (r1, b))"
      using t False by (rule format_directive_Some)
    have nul: "NUL \<notin> set t"
      using t False by (rule NUL_notin_directive_text)
    show ?thesis
    proof (cases "buff_size out + length t \<le> max_size")
      case True
      let ?b = "out\<lparr>buff := buff out @ t, buff_size := buff_size out + length t\<rparr>"
      have "format_loop (c # p) args out = format_loop p r1 ?b"
        using False step True nul Cons.prems(2) by (simp add: append_str_eq)
      moreover have "buff_size ?b \<le> max_size"
        using True by simp
      ultimately show ?thesis
        using Cons.IH [OF ts, of ?b] tts by (simp add: add.assoc)
    next
      case no_room: False
      then show ?thesis
        using False step nul Cons.prems(2) tts by (simp add: append_str_eq)
    qed
  qed
qed

lemma format_loop_unmatched:
  assumes "line_text fmt args = None"
  shows "\<exists>e. format_loop fmt args out = Inl e"
  using assms
proof (induction fmt arbitrary: args out)
  case Nil
  then show ?case by simp
next
  case (Cons c p)
  then have c: "c \<noteq> NUL"
    by (auto split: if_splits)
  show ?case
  proof (cases "directive_text c args")
    case None
    then show ?thesis
      using c by (simp add: format_directive_None)
  next
    case (Some tr)
    obtain t r1 where tr: "tr = (t, r1)"
      by (cases tr)
    with Some Cons.prems c have "line_text p r1 = None"
      by (auto split: option.splits)
    then have ih: "\<And>b. \<exists>e. format_loop p r1 b = Inl e"
      by (rule Cons.IH)
    have "format_directive c args out = and_then (append_str t out) (\<lambda>b. Inr (r1, b))"
      using Some tr c by (simp add: format_directive_Some)
    then show ?thesis
      using c ih by (cases "append_str t out") simp_all
  qed
qed

lemma on_format_impl_line_text:
  assumes "line_text fmt args = Some (ln, rest)"
  shows "on_format_impl fmt args log =
     (if length ln < max_size then Inr (log @ [ln @ [NUL]]) else Inl Assertion_failed)"
proof -
  have "format_loop fmt args new_output_buff =
     (if length ln \<le> max_size
      then Inr (rest, \<lparr>buff_size = length ln, buff = ln\<rparr>)
      else Inl Assertion_failed)"
    using format_loop_line_text [OF assms, of new_output_buff]
    by (simp add: new_output_buff_def)
  then show ?thesis
    by (simp add: on_format_impl_def append_char_def on_output_def get_buff_def)
qed

lemma on_format_impl_unmatched:
  assumes "line_text fmt args = None"
  shows "\<exists>e. on_format_impl fmt args log = Inl e"
  using format_loop_unmatched [OF assms, of new_output_buff]
  by (auto simp: on_format_impl_def)

lemma on_format_impl_Inr:
  assumes "on_format_impl fmt args log = Inr log'"
  obtains line rest where "line_text fmt args = Some (line, rest)"
    and "length line < max_size" and "log' = log @ [line @ [NUL]]"
proof (cases "line_text fmt args")
  case None
  with assms show ?thesis
    using on_format_impl_unmatched [of fmt args log] by simp
next
  case (Some tr)
  obtain line rest where "tr = (line, rest)"
    by (cases tr)
  with Some have lt: "line_text fmt args = Some (line, rest)"
    by simp
  from assms show ?thesis
    unfolding on_format_impl_line_text [OF lt]
    using lt that by (auto split: if_splits)
qed

subsection \<open>Displacements and single directives\<close>

lemma snprintf_short: "length s < n \<Longrightarrow> snprintf n s = s"
  by (simp add: snprintf_def)

lemma dec_of_not_Nil: "dec_of n \<noteq> []"
  by (subst dec_of.simps) simp

lemma hd_dec_of: "hd (dec_of n) = CHR ''0'' \<Longrightarrow> n = 0"
proof (induction n rule: dec_of.induct)
  case (1 n)
  show ?case
  proof (cases "n < 10")
    case True
    with "1.prems" have "dec_digit n = CHR ''0''"
      by (subst (asm) dec_of.simps) simp
    then have "digit_value (dec_digit n) = 0"
      by (simp add: digit_value_def)
    with True show ?thesis
      by (simp add: digit_value_dec_digit)
  next
    case False
    with "1.prems" have "hd (dec_of (n div 10)) = CHR ''0''"
      by (subst (asm) dec_of.simps) (simp add: dec_of_not_Nil)
    with False "1.IH" have "n div 10 = 0"
      by simp
    with False show ?thesis by simp
  qed
qed

lemma sign_extend8_range: "- 128 \<le> sign_extend8 d \<and> sign_extend8 d < 128"
proof -
  have "d mod 256 < 256"
    by simp
  then show ?thesis
    unfolding sign_extend8_def by (auto simp del: mod_less_divisor)
qed

lemma sign_extend8_mod: "sign_extend8 d mod 256 = int d mod 256"
proof -
  have "(int (d mod 256) - 256) mod 256 = int (d mod 256) mod 256"
    by (metis minus_mod_self2)
  then show ?thesis
    by (simp add: sign_extend8_def zmod_int)
qed

lemma length_format_plus_d_byte:
  assumes "- 1000 < v" and "v < 1000"
  shows "length (format_plus_d v) \<le> 4"
proof -
  have "nat \<bar>v\<bar> < 10 ^ 3"
    using assms by simp
  then have "length (dec_of (nat \<bar>v\<bar>)) \<le> 3"
    by (rule length_dec_of) simp
  then show ?thesis
    by (cases "v < 0") (simp_all add: format_plus_d_def abs_if)
qed

lemma snprintf_disp: "snprintf 32 (format_plus_d (sign_extend8 d)) = format_plus_d (sign_extend8 d)"
proof -
  have "length (format_plus_d (sign_extend8 d)) \<le> 4"
    using sign_extend8_range [of d] by (intro length_format_plus_d_byte) simp_all
  then show ?thesis
    by (simp add: snprintf_short)
qed

lemma length_get_index_reg_name: "length (get_index_reg_name irp) = 2"
  by (cases irp) simp_all

lemma on_format_impl_single:
  assumes "directive_text c args = Some (t, rest)" and "c \<noteq> NUL" and "length t < max_size"
  shows "on_format_impl [c] args log = Inr (log @ [t @ [NUL]])"
proof -
  have "line_text [c] args = Some (t, rest)"
    using assms(1,2) by simp
  then show ?thesis
    using assms(3) by (simp add: on_format_impl_line_text)
qed

lemma disp_digits:
  obtains ds where "format_plus_d v = (if v < 0 then CHR ''-'' else CHR ''+'') # ds"
    and "ds \<noteq> []" and "set ds \<subseteq> set ''0123456789''" and "int (dec_value ds) = \<bar>v\<bar>"
    and "hd ds = CHR ''0'' \<longrightarrow> ds = ''0''"
proof
  let ?ds = "dec_of (nat \<bar>v\<bar>)"
  show "format_plus_d v = (if v < 0 then CHR ''-'' else CHR ''+'') # ?ds"
    by (simp add: format_plus_d_def)
  show "?ds \<noteq> []"
    by (rule dec_of_not_Nil)
  show "set ?ds \<subseteq> set ''0123456789''"
    by (rule set_dec_of)
  show "int (dec_value ?ds) = \<bar>v\<bar>"
    by (simp add: dec_value_dec_of)
  show "hd ?ds = CHR ''0'' \<longrightarrow> ?ds = ''0''"
  proof
    assume "hd ?ds = CHR ''0''"
    then have "nat \<bar>v\<bar> = 0"
      by (rule hd_dec_of)
    then show "?ds = ''0''"
      by (simp add: dec_of.simps dec_digit_def)
  qed
qed

section \<open>The claims\<close>

text \<open>
  C1. The directive \<^verbatim>\<open>R\<close> with the register \<^verbatim>\<open>reg::at_hl\<close>: under the context
  \<^verbatim>\<open>hl\<close> the case appends \<^verbatim>\<open>(hl)\<close> for every displacement; under \<^verbatim>\<open>ix\<close> or
  \<^verbatim>\<open>iy\<close> it appends an opening parenthesis, the name of the index register, the sign
  of the sign-extended displacement, the decimal digits of its magnitude without
  padding, and a closing parenthesis. The case reads three arguments. As whole calls,
  \<^verbatim>\<open>ix\<close> with the byte 253 gives \<^verbatim>\<open>(ix-3)\<close> and \<^verbatim>\<open>iy\<close> with 5 gives \<^verbatim>\<open>(iy+5)\<close>.
\<close>

theorem register_operand_at_hl:
  "format_directive (CHR ''R'')
     (Arg_reg reg_at_hl # Arg_index_regp index_regp_hl # Arg_fast_u8 d # rest) out =
     and_then (append_str ''(hl)'' out) (\<lambda>b. Inr (rest, b))
   \<and> on_format_impl ''R'' [Arg_reg reg_at_hl, Arg_index_regp index_regp_hl, Arg_fast_u8 d] log =
     Inr (log @ [''(hl)'' @ [NUL]])
   \<and> (irp \<noteq> index_regp_hl \<longrightarrow>
       (\<exists>ds. ds \<noteq> [] \<and> set ds \<subseteq> set ''0123456789''
          \<and> int (dec_value ds) = \<bar>sign_extend8 d\<bar> \<and> (hd ds = CHR ''0'' \<longrightarrow> ds = ''0'')
          \<and> format_directive (CHR ''R'')
               (Arg_reg reg_at_hl # Arg_index_regp irp # Arg_fast_u8 d # rest) out =
             and_then
               (append_str
                  (''('' @ (if irp = index_regp_ix then ''ix'' else ''iy'')
                     @ (if sign_extend8 d < 0 then ''-'' else ''+'') @ ds @ '')'') out)
               (\<lambda>b. Inr (rest, b))
          \<and> on_format_impl ''R'' [Arg_reg reg_at_hl, Arg_index_regp irp, Arg_fast_u8 d] log =
             Inr (log @ [''('' @ (if irp = index_regp_ix then ''ix'' else ''iy'')
                     @ (if sign_extend8 d < 0 then ''-'' else ''+'') @ ds @ '')'' @ [NUL]])))
   \<and> - 128 \<le> sign_extend8 d \<and> sign_extend8 d < 128 \<and> sign_extend8 d mod 256 = int d mod 256
   \<and> on_format_impl ''R'' [Arg_reg reg_at_hl, Arg_index_regp index_regp_ix, Arg_fast_u8 253] log =
     Inr (log @ [''(ix-3)'' @ [NUL]])
   \<and> on_format_impl ''R'' [Arg_reg reg_at_hl, Arg_index_regp index_regp_iy, Arg_fast_u8 5] log =
     Inr (log @ [''(iy+5)'' @ [NUL]])"
  (is "?step_hl \<and> ?call_hl \<and> ?indexed \<and> ?lo \<and> ?hi \<and> ?mod \<and> ?ix \<and> ?iy")
proof -
  have step_hl: ?step_hl
    by (simp add: format_directive_R_name)
  have call_hl: ?call_hl
    by (rule on_format_impl_single [where rest = "[]"])
       (simp_all add: directive_text_def max_size_def)
  have indexed: ?indexed
  proof
    assume irp: "irp \<noteq> index_regp_hl"
    let ?v = "sign_extend8 d"
    let ?name = "if irp = index_regp_ix then ''ix'' else ''iy''"
    obtain ds where ds: "format_plus_d ?v = (if ?v < 0 then CHR ''-'' else CHR ''+'') # ds"
      and props: "ds \<noteq> []" "set ds \<subseteq> set ''0123456789''" "int (dec_value ds) = \<bar>?v\<bar>"
        "hd ds = CHR ''0'' \<longrightarrow> ds = ''0''"
      by (rule disp_digits)
    let ?t = "''('' @ ?name @ (if ?v < 0 then ''-'' else ''+'') @ ds @ '')''"
    have name: "get_index_reg_name irp = ?name"
      using irp by (cases irp) simp_all
    have t: "''('' @ get_index_reg_name irp @ snprintf 32 (format_plus_d ?v) @ '')'' = ?t"
      unfolding snprintf_disp name by (simp add: ds)
    have step: "format_directive (CHR ''R'')
        (Arg_reg reg_at_hl # Arg_index_regp irp # Arg_fast_u8 d # rest) out =
        and_then (append_str ?t out) (\<lambda>b. Inr (rest, b))"
      using format_directive_R_indexed [OF irp, of d rest out] unfolding t .
    have "length (format_plus_d ?v) \<le> 4"
      using sign_extend8_range [of d] by (intro length_format_plus_d_byte) simp_all
    then have len: "length ?t < max_size"
      by (simp add: ds max_size_def)
    have "directive_text (CHR ''R'') [Arg_reg reg_at_hl, Arg_index_regp irp, Arg_fast_u8 d] =
        Some (?t, [])"
      using irp t by (simp add: directive_text_def)
    then have call: "on_format_impl ''R'' [Arg_reg reg_at_hl, Arg_index_regp irp, Arg_fast_u8 d] log =
        Inr (log @ [?t @ [NUL]])"
      using len by (intro on_format_impl_single) simp_all
    from props step call show "\<exists>ds. ds \<noteq> [] \<and> set ds \<subseteq> set ''0123456789''
          \<and> int (dec_value ds) = \<bar>sign_extend8 d\<bar> \<and> (hd ds = CHR ''0'' \<longrightarrow> ds = ''0'')
          \<and> format_directive (CHR ''R'')
               (Arg_reg reg_at_hl # Arg_index_regp irp # Arg_fast_u8 d # rest) out =
             and_then
               (append_str
                  (''('' @ (if irp = index_regp_ix then ''ix'' else ''iy'')
                     @ (if sign_extend8 d < 0 then ''-'' else ''+'') @ ds @ '')'') out)
               (\<lambda>b. Inr (rest, b))
          \<and> on_format_impl ''R'' [Arg_reg reg_at_hl, Arg_index_regp irp, Arg_fast_u8 d] log =
             Inr (log @ [''('' @ (if irp = index_regp_ix then ''ix'' else ''iy'')
                     @ (if sign_extend8 d < 0 then ''-'' else ''+'') @ ds @ '')'' @ [NUL]])"
      by (intro exI [of _ ds]) simp
  qed
  have ix: ?ix
    by (rule on_format_impl_single [where rest = "[]"])
       (simp_all add: directive_text_def max_size_def sign_extend8_def snprintf_def
          format_plus_d_def dec_of.simps dec_digit_def)
  have iy: ?iy
    by (rule on_format_impl_single [where rest = "[]"])
       (simp_all add: directive_text_def max_size_def sign_extend8_def snprintf_def
          format_plus_d_def dec_of.simps dec_digit_def)
  show ?thesis
    using step_hl call_hl indexed sign_extend8_range [of d] sign_extend8_mod [of d] ix iy
    by blast
qed

theorem register_operand_at_hl_witness:
  "index_regp_ix \<noteq> index_regp_hl
   \<and> format_directive (CHR ''R'')
       [Arg_reg reg_at_hl, Arg_index_regp index_regp_hl, Arg_fast_u8 253] new_output_buff =
       Inr ([], \<lparr>buff_size = 4, buff = ''(hl)''\<rparr>)
   \<and> on_format_impl ''R'' [Arg_reg reg_at_hl, Arg_index_regp index_regp_ix, Arg_fast_u8 253] [] =
       Inr [''(ix-3)'' @ [NUL]]"
  using register_operand_at_hl
    [where d = 253 and irp = index_regp_ix and rest = "[]" and out = new_output_buff
       and log = "[]"]
  by (simp add: new_output_buff_def append_char_def max_size_def)

text \<open>
  C2. The directive \<^verbatim>\<open>R\<close> with any register but \<^verbatim>\<open>reg::at_hl\<close>: whatever the
  context and the displacement, the case appends the fixed name of the register, one
  of \<^verbatim>\<open>b c d e h l a\<close>, and reads all three arguments.
\<close>

theorem register_operand_name:
  "r \<noteq> reg_at_hl \<Longrightarrow>
     format_directive (CHR ''R'') (Arg_reg r # Arg_index_regp irp # Arg_fast_u8 d # rest) out =
       and_then (append_str (get_reg_name r) out) (\<lambda>b. Inr (rest, b))
   \<and> on_format_impl ''R'' [Arg_reg r, Arg_index_regp irp, Arg_fast_u8 d] log =
       Inr (log @ [get_reg_name r @ [NUL]])
   \<and> get_reg_name r =
       (case r of reg_b \<Rightarrow> ''b'' | reg_c \<Rightarrow> ''c'' | reg_d \<Rightarrow> ''d'' | reg_e \<Rightarrow> ''e''
        | reg_h \<Rightarrow> ''h'' | reg_l \<Rightarrow> ''l'' | reg_a \<Rightarrow> ''a'')"
proof (intro conjI)
  assume r: "r \<noteq> reg_at_hl"
  then show "format_directive (CHR ''R'')
      (Arg_reg r # Arg_index_regp irp # Arg_fast_u8 d # rest) out =
      and_then (append_str (get_reg_name r) out) (\<lambda>b. Inr (rest, b))"
    by (simp add: format_directive_R_name)
  have "directive_text (CHR ''R'') [Arg_reg r, Arg_index_regp irp, Arg_fast_u8 d] =
      Some (get_reg_name r, [])"
    using r by (simp add: directive_text_def)
  moreover have "length (get_reg_name r) < max_size"
    by (cases r) (simp_all add: max_size_def)
  ultimately show "on_format_impl ''R'' [Arg_reg r, Arg_index_regp irp, Arg_fast_u8 d] log =
      Inr (log @ [get_reg_name r @ [NUL]])"
    by (intro on_format_impl_single) simp_all
  show "get_reg_name r =
       (case r of reg_b \<Rightarrow> ''b'' | reg_c \<Rightarrow> ''c'' | reg_d \<Rightarrow> ''d'' | reg_e \<Rightarrow> ''e''
        | reg_h \<Rightarrow> ''h'' | reg_l \<Rightarrow> ''l'' | reg_a \<Rightarrow> ''a'')"
    using r by (cases r) simp_all
qed

theorem register_operand_name_witness:
  "reg_a \<noteq> reg_at_hl
   \<and> on_format_impl ''R'' [Arg_reg reg_a, Arg_index_regp index_regp_iy, Arg_fast_u8 200] [] =
       Inr [''a'' @ [NUL]]"
  using register_operand_name
    [where r = reg_a and irp = index_regp_iy and d = 200 and rest = "[]"
       and out = new_output_buff and log = "[]"]
  by simp

text \<open>
  C3. The directive \<^verbatim>\<open>P\<close>: the pair \<^verbatim>\<open>hl\<close> is named after the context,
  \<^verbatim>\<open>hl\<close>, \<^verbatim>\<open>ix\<close> or \<^verbatim>\<open>iy\<close>; the pairs \<^verbatim>\<open>bc\<close>, \<^verbatim>\<open>de\<close> and \<^verbatim>\<open>sp\<close> keep
  their names under every context.
\<close>

theorem register_pair_operand:
  "format_directive (CHR ''P'') (Arg_regp rp # Arg_index_regp irp # rest) out =
     and_then
       (append_str
          (case rp of
             regp_bc \<Rightarrow> ''bc''
           | regp_de \<Rightarrow> ''de''
           | regp_hl \<Rightarrow>
               (case irp of index_regp_hl \<Rightarrow> ''hl'' | index_regp_ix \<Rightarrow> ''ix''
                | index_regp_iy \<Rightarrow> ''iy'')
           | regp_sp \<Rightarrow> ''sp'') out)
       (\<lambda>b. Inr (rest, b))
   \<and> on_format_impl ''P'' [Arg_regp rp, Arg_index_regp irp] log =
     Inr (log @
       [(case rp of
           regp_bc \<Rightarrow> ''bc''
         | regp_de \<Rightarrow> ''de''
         | regp_hl \<Rightarrow>
             (case irp of index_regp_hl \<Rightarrow> ''hl'' | index_regp_ix \<Rightarrow> ''ix''
              | index_regp_iy \<Rightarrow> ''iy'')
         | regp_sp \<Rightarrow> ''sp'') @ [NUL]])"
proof -
  let ?t = "case rp of
             regp_bc \<Rightarrow> ''bc''
           | regp_de \<Rightarrow> ''de''
           | regp_hl \<Rightarrow>
               (case irp of index_regp_hl \<Rightarrow> ''hl'' | index_regp_ix \<Rightarrow> ''ix''
                | index_regp_iy \<Rightarrow> ''iy'')
           | regp_sp \<Rightarrow> ''sp''"
  have t: "get_reg_name_regp rp irp = ?t"
    by (cases rp; cases irp) simp_all
  have len: "length ?t < max_size"
    by (cases rp; cases irp) (simp_all add: max_size_def)
  have "directive_text (CHR ''P'') [Arg_regp rp, Arg_index_regp irp] = Some (?t, [])"
    by (simp add: directive_text_def t)
  then have "on_format_impl ''P'' [Arg_regp rp, Arg_index_regp irp] log = Inr (log @ [?t @ [NUL]])"
    using len by (intro on_format_impl_single) simp_all
  then show ?thesis
    using format_directive_P [of rp irp rest out] by (simp only: t)
qed

theorem register_pair_operand_witness:
  "on_format_impl ''P'' [Arg_regp regp_hl, Arg_index_regp index_regp_ix] [] = Inr [''ix'' @ [NUL]]
   \<and> on_format_impl ''P'' [Arg_regp regp_hl, Arg_index_regp index_regp_hl] [] = Inr [''hl'' @ [NUL]]
   \<and> on_format_impl ''P'' [Arg_regp regp_sp, Arg_index_regp index_regp_iy] [] = Inr [''sp'' @ [NUL]]"
  using register_pair_operand [where rp = regp_hl and irp = index_regp_ix and log = "[]"]
    register_pair_operand [where rp = regp_hl and irp = index_regp_hl and log = "[]"]
    register_pair_operand [where rp = regp_sp and irp = index_regp_iy and log = "[]"]
  by simp

text \<open>
  C4. The directive \<^verbatim>\<open>A\<close> appends the mnemonic of the operation, followed by
  \<^verbatim>\<open> a,\<close> exactly for \<^verbatim>\<open>add\<close>, \<^verbatim>\<open>adc\<close> and \<^verbatim>\<open>sbc\<close>: \<^verbatim>\<open>add\<close> gives
  \<^verbatim>\<open>add a,\<close> and \<^verbatim>\<open>and\<close> gives \<^verbatim>\<open>and\<close>.
\<close>

theorem alu_directive:
  "format_directive (CHR ''A'') (Arg_alu k # rest) out =
     and_then
       (append_str (get_mnemonic k @ (if k \<in> {alu_add, alu_adc, alu_sbc} then '' a,'' else [])) out)
       (\<lambda>b. Inr (rest, b))
   \<and> (is_two_operand_alu_instr k \<longleftrightarrow> k \<in> {alu_add, alu_adc, alu_sbc})
   \<and> on_format_impl ''A'' [Arg_alu k] log =
     Inr (log @
       [(case k of
           alu_add \<Rightarrow> ''add a,'' | alu_adc \<Rightarrow> ''adc a,'' | alu_sub \<Rightarrow> ''sub''
         | alu_sbc \<Rightarrow> ''sbc a,'' | alu_and_a \<Rightarrow> ''and'' | alu_xor_a \<Rightarrow> ''xor''
         | alu_or_a \<Rightarrow> ''or'' | alu_cp \<Rightarrow> ''cp'') @ [NUL]])"
proof -
  have two: "is_two_operand_alu_instr k \<longleftrightarrow> k \<in> {alu_add, alu_adc, alu_sbc}"
    by (simp add: is_two_operand_alu_instr_def)
  let ?t = "get_mnemonic k @ (if is_two_operand_alu_instr k then '' a,'' else [])"
  have t: "?t = (case k of
           alu_add \<Rightarrow> ''add a,'' | alu_adc \<Rightarrow> ''adc a,'' | alu_sub \<Rightarrow> ''sub''
         | alu_sbc \<Rightarrow> ''sbc a,'' | alu_and_a \<Rightarrow> ''and'' | alu_xor_a \<Rightarrow> ''xor''
         | alu_or_a \<Rightarrow> ''or'' | alu_cp \<Rightarrow> ''cp'')"
    by (cases k) (simp_all add: is_two_operand_alu_instr_def)
  have len: "length ?t < max_size"
    by (cases k) (simp_all add: is_two_operand_alu_instr_def max_size_def)
  have "directive_text (CHR ''A'') [Arg_alu k] = Some (?t, [])"
    by (simp add: directive_text_def)
  then have "on_format_impl ''A'' [Arg_alu k] log = Inr (log @ [?t @ [NUL]])"
    using len by (intro on_format_impl_single) simp_all
  then have call: "on_format_impl ''A'' [Arg_alu k] log =
     Inr (log @
       [(case k of
           alu_add \<Rightarrow> ''add a,'' | alu_adc \<Rightarrow> ''adc a,'' | alu_sub \<Rightarrow> ''sub''
         | alu_sbc \<Rightarrow> ''sbc a,'' | alu_and_a \<Rightarrow> ''and'' | alu_xor_a \<Rightarrow> ''xor''
         | alu_or_a \<Rightarrow> ''or'' | alu_cp \<Rightarrow> ''cp'') @ [NUL]])"
    unfolding t .
  have step: "format_directive (CHR ''A'') (Arg_alu k # rest) out =
     and_then
       (append_str (get_mnemonic k @ (if k \<in> {alu_add, alu_adc, alu_sbc} then '' a,'' else [])) out)
       (\<lambda>b. Inr (rest, b))"
    using format_directive_A [of k rest out] unfolding two .
  from step two call show ?thesis
    by (intro conjI)
qed

theorem alu_directive_witness:
  "on_format_impl ''A'' [Arg_alu alu_add] [] = Inr [''add a,'' @ [NUL]]
   \<and> on_format_impl ''A'' [Arg_alu alu_and_a] [] = Inr [''and'' @ [NUL]]
   \<and> \<not> is_two_operand_alu_instr alu_sub"
  using alu_directive [where k = alu_add and log = "[]"]
    alu_directive [where k = alu_and_a and log = "[]"]
    alu_directive [where k = alu_sub and log = "[]"]
  by simp

subsection \<open>Immediate operands\<close>

lemma hex_of_not_Nil: "hex_of n \<noteq> []"
  by (subst hex_of.simps) simp

lemma set_replicate_in: "c \<in> S \<Longrightarrow> set (replicate k c) \<subseteq> S"
  by auto

lemma zero_pad_hex:
  assumes "n < 16 ^ w" and "0 < w"
  shows "length (zero_pad w (hex_of n)) = w"
    and "set (zero_pad w (hex_of n)) \<subseteq> set ''0123456789abcdef''"
    and "hex_value (zero_pad w (hex_of n)) = n"
proof -
  have "length (hex_of n) \<le> w"
    using assms by (rule length_hex_of)
  then show "length (zero_pad w (hex_of n)) = w"
    by (simp add: zero_pad_def)
  have "set (replicate (w - length (hex_of n)) (CHR ''0'')) \<subseteq> set ''0123456789abcdef''"
    by (rule set_replicate_in) simp
  then show "set (zero_pad w (hex_of n)) \<subseteq> set ''0123456789abcdef''"
    using set_hex_of [of n] unfolding zero_pad_def set_append by (rule Un_least)
  show "hex_value (zero_pad w (hex_of n)) = n"
    by (simp add: zero_pad_def hex_value_zeros hex_value_hex_of)
qed

lemma static_cast_unsigned_small: "n < 2 ^ 32 \<Longrightarrow> static_cast_unsigned n = n"
  by (simp add: static_cast_unsigned_def)


text \<open>
  C7. The directive \<^verbatim>\<open>N\<close> with a value below 256 appends \<^verbatim>\<open>0x\<close> and exactly two
  digits, and the directive \<^verbatim>\<open>W\<close> with a value below 65536 appends \<^verbatim>\<open>0x\<close> and
  exactly four; the digits are lower-case hexadecimal and denote the value, so a short
  value is padded with zeros. The value 10 gives \<^verbatim>\<open>0x0a\<close> and 4660 gives
  \<^verbatim>\<open>0x1234\<close>.
\<close>

theorem immediate_operands:
  "(n < 256 \<longrightarrow>
      (\<exists>ds. length ds = 2 \<and> set ds \<subseteq> set ''0123456789abcdef'' \<and> hex_value ds = n
         \<and> format_directive (CHR ''N'') (Arg_fast_u8 n # rest) out =
             and_then (append_str (''0x'' @ ds) out) (\<lambda>b. Inr (rest, b))
         \<and> on_format_impl ''N'' [Arg_fast_u8 n] log = Inr (log @ [''0x'' @ ds @ [NUL]])))
   \<and> (nn < 65536 \<longrightarrow>
      (\<exists>ds. length ds = 4 \<and> set ds \<subseteq> set ''0123456789abcdef'' \<and> hex_value ds = nn
         \<and> format_directive (CHR ''W'') (Arg_fast_u16 nn # rest) out =
             and_then (append_str (''0x'' @ ds) out) (\<lambda>b. Inr (rest, b))
         \<and> on_format_impl ''W'' [Arg_fast_u16 nn] log = Inr (log @ [''0x'' @ ds @ [NUL]])))
   \<and> on_format_impl ''N'' [Arg_fast_u8 10] log = Inr (log @ [''0x0a'' @ [NUL]])
   \<and> on_format_impl ''W'' [Arg_fast_u16 4660] log = Inr (log @ [''0x1234'' @ [NUL]])"
  (is "?N \<and> ?W \<and> ?ten \<and> ?word")
proof -
  have N: ?N
  proof
    assume n: "n < 256"
    let ?ds = "zero_pad 2 (hex_of n)"
    have lt: "n < 16 ^ 2"
      using n by simp
    have ds: "length ?ds = 2" "set ?ds \<subseteq> set ''0123456789abcdef''" "hex_value ?ds = n"
      using zero_pad_hex [OF lt] by simp_all
    have t: "snprintf 32 (format_02x (static_cast_unsigned n)) = ''0x'' @ ?ds"
      using n ds(1) by (simp add: static_cast_unsigned_small format_02x_def snprintf_def)
    have step: "format_directive (CHR ''N'') (Arg_fast_u8 n # rest) out =
        and_then (append_str (''0x'' @ ?ds) out) (\<lambda>b. Inr (rest, b))"
      using format_directive_N [of n rest out] unfolding t .
    have "directive_text (CHR ''N'') [Arg_fast_u8 n] = Some (''0x'' @ ?ds, [])"
      using t by (simp add: directive_text_def)
    moreover have "length (''0x'' @ ?ds) < max_size"
      using ds(1) by (simp add: max_size_def)
    ultimately have "on_format_impl ''N'' [Arg_fast_u8 n] log = Inr (log @ [(''0x'' @ ?ds) @ [NUL]])"
      by (intro on_format_impl_single) simp_all
    with ds step show "\<exists>ds. length ds = 2 \<and> set ds \<subseteq> set ''0123456789abcdef'' \<and> hex_value ds = n
         \<and> format_directive (CHR ''N'') (Arg_fast_u8 n # rest) out =
             and_then (append_str (''0x'' @ ds) out) (\<lambda>b. Inr (rest, b))
         \<and> on_format_impl ''N'' [Arg_fast_u8 n] log = Inr (log @ [''0x'' @ ds @ [NUL]])"
      by (intro exI [of _ ?ds]) simp
  qed
  have W: ?W
  proof
    assume nn: "nn < 65536"
    let ?ds = "zero_pad 4 (hex_of nn)"
    have lt: "nn < 16 ^ 4"
      using nn by simp
    have ds: "length ?ds = 4" "set ?ds \<subseteq> set ''0123456789abcdef''" "hex_value ?ds = nn"
      using zero_pad_hex [OF lt] by simp_all
    have t: "snprintf 32 (format_04x (static_cast_unsigned nn)) = ''0x'' @ ?ds"
      using nn ds(1) by (simp add: static_cast_unsigned_small format_04x_def snprintf_def)
    have step: "format_directive (CHR ''W'') (Arg_fast_u16 nn # rest) out =
        and_then (append_str (''0x'' @ ?ds) out) (\<lambda>b. Inr (rest, b))"
      using format_directive_W [of nn rest out] unfolding t .
    have "directive_text (CHR ''W'') [Arg_fast_u16 nn] = Some (''0x'' @ ?ds, [])"
      using t by (simp add: directive_text_def)
    moreover have "length (''0x'' @ ?ds) < max_size"
      using ds(1) by (simp add: max_size_def)
    ultimately have "on_format_impl ''W'' [Arg_fast_u16 nn] log = Inr (log @ [(''0x'' @ ?ds) @ [NUL]])"
      by (intro on_format_impl_single) simp_all
    with ds step show "\<exists>ds. length ds = 4 \<and> set ds \<subseteq> set ''0123456789abcdef'' \<and> hex_value ds = nn
         \<and> format_directive (CHR ''W'') (Arg_fast_u16 nn # rest) out =
             and_then (append_str (''0x'' @ ds) out) (\<lambda>b. Inr (rest, b))
         \<and> on_format_impl ''W'' [Arg_fast_u16 nn] log = Inr (log @ [''0x'' @ ds @ [NUL]])"
      by (intro exI [of _ ?ds]) simp
  qed
  have ten: ?ten
    by (rule on_format_impl_single [where rest = "[]"])
       (simp_all add: directive_text_def max_size_def snprintf_def format_02x_def
          static_cast_unsigned_def zero_pad_def hex_of.simps hex_digit_def)
  have word: ?word
    by (rule on_format_impl_single [where rest = "[]"])
       (simp_all add: directive_text_def max_size_def snprintf_def format_04x_def
          static_cast_unsigned_def zero_pad_def hex_of.simps hex_digit_def)
  from N W ten word show ?thesis
    by (intro conjI)
qed

theorem immediate_operands_witness:
  "(10::nat) < 256 \<and> (4660::nat) < 65536
   \<and> on_format_impl ''N'' [Arg_fast_u8 10] [] = Inr [''0x0a'' @ [NUL]]
   \<and> on_format_impl ''W'' [Arg_fast_u16 4660] [] = Inr [''0x1234'' @ [NUL]]
   \<and> on_format_impl ''N'' [Arg_fast_u8 255] [] \<noteq> Inl Assertion_failed"
  using immediate_operands [where n = 10 and nn = 4660 and log = "[]"]
    immediate_operands [where n = 255 and nn = 0 and log = "[]"]
  by auto

subsection \<open>The capacity of the buffer\<close>

lemma NUL_notin_c_str: "NUL \<notin> set (c_str s)"
  by (auto simp: c_str_def dest: set_takeWhileD)

lemma c_str_Cons: "c_str (c # s) = (if c = NUL then [] else c # c_str s)"
  by (simp add: c_str_def)

lemma c_str_NUL_free: "NUL \<notin> set s \<Longrightarrow> c_str s = s"
  by (induction s) (auto simp: c_str_def)

lemma append_str_c_str: "append_str s out = append_str (c_str s) out"
proof (induction s arbitrary: out)
  case Nil
  show ?case by (simp add: c_str_def)
next
  case (Cons c s)
  show ?case
  proof (cases "c = NUL")
    case True
    then show ?thesis by (simp add: c_str_def)
  next
    case False
    have "append_str s = append_str (c_str s)"
      by (rule ext) (rule Cons.IH)
    with False show ?thesis
      by (simp add: c_str_Cons)
  qed
qed

lemma append_str_capacity:
  assumes "buff_size out \<le> max_size"
  shows "append_str s out =
     (if buff_size out + length (c_str s) \<le> max_size
      then Inr (out\<lparr>buff := buff out @ c_str s,
                    buff_size := buff_size out + length (c_str s)\<rparr>)
      else Inl Assertion_failed)"
  using append_str_eq [OF NUL_notin_c_str assms, of s] append_str_c_str [of s out]
  by simp

lemma append_str_bound:
  assumes "buff_size out \<le> max_size" and "append_str s out = Inr b"
  shows "buff_size b \<le> max_size"
  using assms(2) unfolding append_str_capacity [OF assms(1)]
  by (auto split: if_splits)

lemma format_directive_bound:
  assumes "buff_size out \<le> max_size" and "format_directive c args out = Inr (args', b)"
  shows "buff_size b \<le> max_size"
proof (cases "is_directive c")
  case False
  with assms(2) show ?thesis
    by (auto simp: format_directive_literal append_char_def split: if_splits)
next
  case True
  then have c: "c \<noteq> NUL"
    by (auto simp: is_directive_def)
  show ?thesis
  proof (cases "directive_text c args")
    case None
    with assms(2) show ?thesis
      by (simp add: format_directive_None)
  next
    case (Some tr)
    obtain t r where "tr = (t, r)"
      by (cases tr)
    with Some c have "format_directive c args out = and_then (append_str t out) (\<lambda>b. Inr (r, b))"
      by (simp add: format_directive_Some)
    with assms(2) have "append_str t out = Inr b"
      by (cases "append_str t out") simp_all
    with assms(1) show ?thesis
      by (rule append_str_bound)
  qed
qed

lemma format_loop_Inr:
  assumes "format_loop fmt args out = Inr (rest, b)" and "buff_size out \<le> max_size"
  obtains ln where "line_text fmt args = Some (ln, rest)"
    and "buff_size out + length ln \<le> max_size"
    and "b = out\<lparr>buff := buff out @ ln, buff_size := buff_size out + length ln\<rparr>"
proof (cases "line_text fmt args")
  case None
  with assms(1) show ?thesis
    using format_loop_unmatched [of fmt args out] by simp
next
  case (Some tr)
  obtain ln r where "tr = (ln, r)"
    by (cases tr)
  with Some have lt: "line_text fmt args = Some (ln, r)"
    by simp
  from assms(1) show ?thesis
    unfolding format_loop_line_text [OF lt assms(2)]
    using lt that by (auto split: if_splits)
qed

subsection \<open>Literal characters\<close>

lemma directive_text_literal: "\<not> is_directive c \<Longrightarrow> directive_text c args = Some ([c], args)"
  by (simp add: directive_text_def is_directive_def)

lemma NUL_notin_line_text:
  "line_text fmt args = Some (ln, rest) \<Longrightarrow> NUL \<notin> set ln"
proof (induction fmt arbitrary: args ln)
  case Nil
  then show ?case by simp
next
  case (Cons c p)
  show ?case
  proof (cases "c = NUL")
    case True
    with Cons.prems show ?thesis by simp
  next
    case False
    with Cons.prems obtain t r1 ts where
      t: "directive_text c args = Some (t, r1)" and
      ts: "line_text p r1 = Some (ts, rest)" and
      ln: "ln = t @ ts"
      by (auto split: option.splits)
    from t False have "NUL \<notin> set t"
      by (rule NUL_notin_directive_text)
    moreover from ts have "NUL \<notin> set ts"
      by (rule Cons.IH)
    ultimately show ?thesis
      by (simp add: ln)
  qed
qed

lemma line_text_pieces:
  assumes "line_text fmt args = Some (ln, rest)"
  shows "\<exists>ps. length ps = length (c_str fmt) \<and> ln = concat ps
           \<and> (\<forall>i<length ps. \<not> is_directive (c_str fmt ! i) \<longrightarrow> ps ! i = [c_str fmt ! i])"
  using assms
proof (induction fmt arbitrary: args ln)
  case Nil
  then show ?case by (simp add: c_str_def)
next
  case (Cons c p)
  show ?case
  proof (cases "c = NUL")
    case True
    with Cons.prems show ?thesis by (simp add: c_str_def)
  next
    case False
    with Cons.prems obtain t r1 ts where
      t: "directive_text c args = Some (t, r1)" and
      ts: "line_text p r1 = Some (ts, rest)" and
      ln: "ln = t @ ts"
      by (auto split: option.splits)
    from Cons.IH [OF ts] obtain ps where
      ps: "length ps = length (c_str p)" "ts = concat ps"
        "\<forall>i<length ps. \<not> is_directive (c_str p ! i) \<longrightarrow> ps ! i = [c_str p ! i]"
      by blast
    have lit: "\<not> is_directive c \<longrightarrow> t = [c]"
      using t by (auto simp: directive_text_literal)
    have "\<forall>i<length (t # ps). \<not> is_directive ((c # c_str p) ! i) \<longrightarrow>
        (t # ps) ! i = [(c # c_str p) ! i]"
    proof (intro allI impI)
      fix i
      assume "i < length (t # ps)" and "\<not> is_directive ((c # c_str p) ! i)"
      then show "(t # ps) ! i = [(c # c_str p) ! i]"
        using lit ps(3) by (cases i) simp_all
    qed
    then show ?thesis
      using False ps(1,2) ln by (intro exI [of _ "t # ps"]) (simp add: c_str_Cons)
  qed
qed

lemma line_text_literals:
  assumes "line_text fmt args = Some (ln, rest)"
  shows "subseq (filter (\<lambda>c. \<not> is_directive c) (c_str fmt)) ln"
  using assms
proof (induction fmt arbitrary: args ln)
  case Nil
  then show ?case by (simp add: c_str_def)
next
  case (Cons c p)
  show ?case
  proof (cases "c = NUL")
    case True
    with Cons.prems show ?thesis by (simp add: c_str_def)
  next
    case False
    with Cons.prems obtain t r1 ts where
      t: "directive_text c args = Some (t, r1)" and
      ts: "line_text p r1 = Some (ts, rest)" and
      ln: "ln = t @ ts"
      by (auto split: option.splits)
    have ih: "subseq (filter (\<lambda>c. \<not> is_directive c) (c_str p)) ts"
      using ts by (rule Cons.IH)
    show ?thesis
    proof (cases "is_directive c")
      case True
      have "subseq (filter (\<lambda>c. \<not> is_directive c) (c_str p)) (t @ ts)"
        using ih by (rule subseq_drop_many)
      with True False show ?thesis
        by (simp add: c_str_Cons ln)
    next
      case lit: False
      with t have "t = [c]"
        by (simp add: directive_text_literal)
      with lit False ih show ?thesis
        by (simp add: c_str_Cons ln)
    qed
  qed
qed

lemma length_zero_pad: "length (zero_pad w s) = max w (length s)"
  by (simp add: zero_pad_def)

lemma snprintf_format_02x:
  "snprintf 32 (format_02x (static_cast_unsigned n)) = format_02x (n mod 2 ^ 32)"
proof -
  have "n mod 2 ^ 32 < (16::nat) ^ 8"
    by simp
  then have "length (hex_of (n mod 2 ^ 32)) \<le> 8"
    by (rule length_hex_of) simp
  then have "length (format_02x (n mod 2 ^ 32)) < 32"
    by (simp add: format_02x_def length_zero_pad)
  then show ?thesis
    by (simp add: static_cast_unsigned_def snprintf_short)
qed

lemma snprintf_format_04x:
  "snprintf 32 (format_04x (static_cast_unsigned n)) = format_04x (n mod 2 ^ 32)"
proof -
  have "n mod 2 ^ 32 < (16::nat) ^ 8"
    by simp
  then have "length (hex_of (n mod 2 ^ 32)) \<le> 8"
    by (rule length_hex_of) simp
  then have "length (format_04x (n mod 2 ^ 32)) < 32"
    by (simp add: format_04x_def length_zero_pad)
  then show ?thesis
    by (simp add: static_cast_unsigned_def snprintf_short)
qed

lemma snprintf_format_plus_d:
  assumes "- (2 ^ 31) \<le> d" and "d < 2 ^ 31"
  shows "snprintf 32 (format_plus_d d) = format_plus_d d"
proof -
  have "nat \<bar>d\<bar> < 10 ^ 10"
    using assms by simp
  then have "length (dec_of (nat \<bar>d\<bar>)) \<le> 10"
    by (rule length_dec_of) simp
  then have "length (format_plus_d d) < 32"
    by (cases "d < 0") (simp_all add: format_plus_d_def abs_if)
  then show ?thesis
    by (rule snprintf_short)
qed

lemma append_str_whole:
  assumes "NUL \<notin> set s" and "buff_size out \<le> 32"
  shows "append_str s out =
     (if buff_size out + length s \<le> 32
      then Inr (out\<lparr>buff := buff out @ s, buff_size := buff_size out + length s\<rparr>)
      else Inl Assertion_failed)"
  using append_str_eq [OF assms(1), of out] assms(2) by (simp add: max_size_def)

lemma format_directive_whole:
  assumes "directive_text c args = Some (t, r)" and "c \<noteq> NUL" and "buff_size out \<le> 32"
  shows "format_directive c args out =
     (if buff_size out + length t \<le> 32
      then Inr (r, out\<lparr>buff := buff out @ t, buff_size := buff_size out + length t\<rparr>)
      else Inl Assertion_failed)"
proof -
  have "NUL \<notin> set t"
    using assms(1,2) by (rule NUL_notin_directive_text)
  then show ?thesis
    unfolding format_directive_Some [OF assms(1,2)]
    using assms(3) by (simp add: append_str_whole)
qed

text \<open>
  C5. Every append goes through \<^verbatim>\<open>append(char)\<close>, which writes only when the write
  position is below the capacity of 32 and fails its assertion otherwise. Every append
  operation, a character, a string, a byte or a word in hexadecimal and a displacement,
  and with them every directive and the loop, either appends its whole text or fails
  the assertion: nothing is cut short, and the position never exceeds 32. A call whose
  text with the terminator fits in 32 characters does not fail, and a call whose text
  does not fit fails the assertion.
\<close>

theorem capacity_checked_appends:
  "append_char c out =
     (if buff_size out < 32
      then Inr (out\<lparr>buff := buff out @ [c], buff_size := buff_size out + 1\<rparr>)
      else Inl Assertion_failed)
   \<and> (buff_size out \<le> 32 \<longrightarrow>
        append_str s out =
          (if buff_size out + length (c_str s) \<le> 32
           then Inr (out\<lparr>buff := buff out @ c_str s,
                         buff_size := buff_size out + length (c_str s)\<rparr>)
           else Inl Assertion_failed))
   \<and> (buff_size out \<le> 32 \<longrightarrow>
        append_u8 n out =
          (if buff_size out + length (format_02x (n mod 2 ^ 32)) \<le> 32
           then Inr (out\<lparr>buff := buff out @ format_02x (n mod 2 ^ 32),
                         buff_size := buff_size out + length (format_02x (n mod 2 ^ 32))\<rparr>)
           else Inl Assertion_failed))
   \<and> (buff_size out \<le> 32 \<longrightarrow>
        append_u16 n out =
          (if buff_size out + length (format_04x (n mod 2 ^ 32)) \<le> 32
           then Inr (out\<lparr>buff := buff out @ format_04x (n mod 2 ^ 32),
                         buff_size := buff_size out + length (format_04x (n mod 2 ^ 32))\<rparr>)
           else Inl Assertion_failed))
   \<and> (buff_size out \<le> 32 \<and> - (2 ^ 31) \<le> d \<and> d < 2 ^ 31 \<longrightarrow>
        append_disp d out =
          (if buff_size out + length (format_plus_d d) \<le> 32
           then Inr (out\<lparr>buff := buff out @ format_plus_d d,
                         buff_size := buff_size out + length (format_plus_d d)\<rparr>)
           else Inl Assertion_failed))
   \<and> (buff_size out \<le> 32 \<and>
        (append_u8 n out = Inr b \<or> append_u16 n out = Inr b \<or> append_disp d out = Inr b)
        \<longrightarrow> buff_size b \<le> 32)
   \<and> (buff_size out \<le> 32 \<and> ch \<noteq> NUL \<and> directive_text ch args = Some (t, rest) \<longrightarrow>
        format_directive ch args out =
          (if buff_size out + length t \<le> 32
           then Inr (rest, out\<lparr>buff := buff out @ t, buff_size := buff_size out + length t\<rparr>)
           else Inl Assertion_failed))
   \<and> (buff_size out \<le> 32 \<and> format_directive ch args out = Inr (args', b)
        \<longrightarrow> buff_size b \<le> 32)
   \<and> (buff_size out \<le> 32 \<and> line_text fmt args = Some (ln, rest) \<longrightarrow>
        format_loop fmt args out =
          (if buff_size out + length ln \<le> 32
           then Inr (rest, out\<lparr>buff := buff out @ ln, buff_size := buff_size out + length ln\<rparr>)
           else Inl Assertion_failed))
   \<and> (format_loop fmt args new_output_buff = Inr (args', b)
        \<longrightarrow> buff_size b \<le> 32 \<and> length (buff b) = buff_size b)
   \<and> (line_text fmt args = Some (ln, rest) \<longrightarrow>
        on_format_impl fmt args log =
          (if length ln + 1 \<le> 32 then Inr (log @ [ln @ [NUL]]) else Inl Assertion_failed))"
  (is "?char \<and> ?str \<and> ?u8 \<and> ?u16 \<and> ?disp \<and> ?typed \<and> ?whole \<and> ?directive
       \<and> ?loop_whole \<and> ?loop \<and> ?call")
proof -
  have char: ?char
    by (simp add: append_char_def max_size_def)
  have str: ?str
    using append_str_capacity [of out s] by (simp add: max_size_def)
  have u8: ?u8
    unfolding append_u8_def snprintf_format_02x
    by (simp add: append_str_whole NUL_notin_format_02x)
  have u16: ?u16
    unfolding append_u16_def snprintf_format_04x
    by (simp add: append_str_whole NUL_notin_format_04x)
  have disp: ?disp
    unfolding append_disp_def
    by (simp add: snprintf_format_plus_d append_str_whole NUL_notin_format_plus_d)
  have typed: ?typed
    using append_str_bound [of out _ b]
    by (auto simp: append_u8_def append_u16_def append_disp_def max_size_def)
  have whole: ?whole
    by (simp add: format_directive_whole)
  have directive: ?directive
    using format_directive_bound [of out ch args args' b] by (simp add: max_size_def)
  have loop_whole: ?loop_whole
    using format_loop_line_text [of fmt args ln rest out] by (simp add: max_size_def)
  have loop: ?loop
  proof
    assume "format_loop fmt args new_output_buff = Inr (args', b)"
    moreover have "buff_size new_output_buff \<le> max_size"
      by (simp add: new_output_buff_def)
    ultimately show "buff_size b \<le> 32 \<and> length (buff b) = buff_size b"
      by (rule format_loop_Inr) (simp add: new_output_buff_def max_size_def)
  qed
  have call: ?call
    by (auto simp: on_format_impl_line_text max_size_def)
  from char str u8 u16 disp typed whole directive loop_whole loop call show ?thesis
    by (intro conjI)
qed

theorem capacity_checked_appends_witness:
  "buff_size new_output_buff \<le> 32
   \<and> append_u8 10 new_output_buff = Inr \<lparr>buff_size = 4, buff = ''0x0a''\<rparr>
   \<and> append_u8 255 \<lparr>buff_size = 30, buff = ''0123456789abcdef0123456789abcd''\<rparr> =
       Inl Assertion_failed
   \<and> - (2 ^ 31) \<le> (- 5 :: int) \<and> (- 5 :: int) < 2 ^ 31
   \<and> append_disp (- 5) new_output_buff = Inr \<lparr>buff_size = 2, buff = ''-5''\<rparr>
   \<and> CHR ''N'' \<noteq> NUL
   \<and> directive_text (CHR ''N'') [Arg_fast_u8 10] = Some (''0x0a'', [])
   \<and> format_directive (CHR ''N'') [Arg_fast_u8 10] \<lparr>buff_size = 5, buff = ''ld a,''\<rparr> =
       Inr ([], \<lparr>buff_size = 9, buff = ''ld a,0x0a''\<rparr>)
   \<and> format_loop ''ld R,N'' [Arg_reg reg_a, Arg_index_regp index_regp_hl, Arg_fast_u8 0,
        Arg_fast_u8 10] new_output_buff = Inr ([], \<lparr>buff_size = 9, buff = ''ld a,0x0a''\<rparr>)
   \<and> line_text ''ld R,N'' [Arg_reg reg_a, Arg_index_regp index_regp_hl, Arg_fast_u8 0,
        Arg_fast_u8 10] = Some (''ld a,0x0a'', [])
   \<and> on_format_impl ''ld R,N'' [Arg_reg reg_a, Arg_index_regp index_regp_hl, Arg_fast_u8 0,
        Arg_fast_u8 10] [] = Inr [''ld a,0x0a'' @ [NUL]]"
proof -
  let ?args = "[Arg_reg reg_a, Arg_index_regp index_regp_hl, Arg_fast_u8 0, Arg_fast_u8 10]"
  let ?full = "\<lparr>buff_size = 30, buff = ''0123456789abcdef0123456789abcd''\<rparr>"
  have ten: "snprintf 32 (format_02x (static_cast_unsigned 10)) = ''0x0a''"
    by (simp add: snprintf_def format_02x_def static_cast_unsigned_def zero_pad_def
        hex_of.simps hex_digit_def)
  have ff: "format_02x (255 mod 2 ^ 32) = ''0xff''"
    by (simp add: format_02x_def zero_pad_def hex_of.simps hex_digit_def)
  have minus5: "format_plus_d (- 5) = ''-5''"
    by (simp add: format_plus_d_def dec_of.simps dec_digit_def)
  have dt: "directive_text (CHR ''N'') [Arg_fast_u8 10] = Some (''0x0a'', [])"
    by (simp add: directive_text_def ten)
  have lt: "line_text ''ld R,N'' ?args = Some (''ld a,0x0a'', [])"
    by (simp add: directive_text_def ten)
  have sz: "buff_size new_output_buff \<le> 32"
    by (simp add: new_output_buff_def)
  have u8: "append_u8 10 new_output_buff = Inr \<lparr>buff_size = 4, buff = ''0x0a''\<rparr>"
    unfolding append_u8_def ten
    by (subst append_str_eq) (simp_all add: new_output_buff_def max_size_def)
  have "append_u8 255 ?full =
      (if buff_size ?full + length (format_02x (255 mod 2 ^ 32)) \<le> 32
       then Inr (?full\<lparr>buff := buff ?full @ format_02x (255 mod 2 ^ 32),
              buff_size := buff_size ?full + length (format_02x (255 mod 2 ^ 32))\<rparr>)
       else Inl Assertion_failed)"
    by (rule capacity_checked_appends [where out = ?full and n = 255,
          THEN conjunct2, THEN conjunct2, THEN conjunct1, rule_format]) simp
  then have cut: "append_u8 255 ?full = Inl Assertion_failed"
    unfolding ff by simp
  have "append_disp (- 5) new_output_buff =
      (if buff_size new_output_buff + length (format_plus_d (- 5)) \<le> 32
       then Inr (new_output_buff\<lparr>buff := buff new_output_buff @ format_plus_d (- 5),
              buff_size := buff_size new_output_buff + length (format_plus_d (- 5))\<rparr>)
       else Inl Assertion_failed)"
    by (rule capacity_checked_appends [where out = new_output_buff and d = "- 5",
          THEN conjunct2, THEN conjunct2, THEN conjunct2, THEN conjunct2, THEN conjunct1,
          rule_format]) (simp add: new_output_buff_def)
  then have disp: "append_disp (- 5) new_output_buff = Inr \<lparr>buff_size = 2, buff = ''-5''\<rparr>"
    unfolding minus5 by (simp add: new_output_buff_def)
  have dir: "format_directive (CHR ''N'') [Arg_fast_u8 10] \<lparr>buff_size = 5, buff = ''ld a,''\<rparr> =
       Inr ([], \<lparr>buff_size = 9, buff = ''ld a,0x0a''\<rparr>)"
    unfolding format_directive_N ten
    by (subst append_str_eq) (simp_all add: max_size_def)
  have "format_loop ''ld R,N'' ?args new_output_buff =
      (if buff_size new_output_buff + length ''ld a,0x0a'' \<le> max_size
       then Inr ([], new_output_buff\<lparr>buff := buff new_output_buff @ ''ld a,0x0a'',
              buff_size := buff_size new_output_buff + length ''ld a,0x0a''\<rparr>)
       else Inl Assertion_failed)"
    using lt by (rule format_loop_line_text) (simp add: new_output_buff_def)
  also have "\<dots> = Inr ([], \<lparr>buff_size = 9, buff = ''ld a,0x0a''\<rparr>)"
    by (simp add: new_output_buff_def max_size_def)
  finally have loop: "format_loop ''ld R,N'' ?args new_output_buff =
      Inr ([], \<lparr>buff_size = 9, buff = ''ld a,0x0a''\<rparr>)" .
  have "on_format_impl ''ld R,N'' ?args [] =
      (if length ''ld a,0x0a'' + 1 \<le> 32 then Inr ([] @ [''ld a,0x0a'' @ [NUL]])
       else Inl Assertion_failed)"
    by (rule capacity_checked_appends
        [where fmt = "''ld R,N''" and args = ?args and ln = "''ld a,0x0a''" and rest = "[]"
           and log = "[]",
         THEN conjunct2, THEN conjunct2, THEN conjunct2, THEN conjunct2, THEN conjunct2,
         THEN conjunct2, THEN conjunct2, THEN conjunct2, THEN conjunct2, THEN conjunct2,
         rule_format, OF lt])
  then have call: "on_format_impl ''ld R,N'' ?args [] = Inr [''ld a,0x0a'' @ [NUL]]"
    by simp
  have range: "- (2 ^ 31) \<le> (- 5 :: int)" "(- 5 :: int) < 2 ^ 31"
    by simp_all
  have nn: "CHR ''N'' \<noteq> NUL"
    by simp
  from sz u8 cut range disp nn dt dir loop lt call show ?thesis
    by (intro conjI)
qed

lemma matching_line_text:
  assumes "matching fmt args"
  obtains ln where "line_text fmt args = Some (ln, [])"
  using assms by (auto simp: matching_def)

lemma line_text_literal_string:
  "\<forall>c\<in>set s. \<not> is_directive c \<and> c \<noteq> NUL \<Longrightarrow> line_text s args = Some (s, args)"
  by (induction s) (simp_all add: directive_text_literal)

text \<open>
  C6, as stated, fails: a format string of 32 literal characters reads no argument, so
  the empty stream matches it, yet the terminator finds the buffer full, the assertion
  fails and the sink is never called.
\<close>

theorem output_once_counterexample:
  "matching ''0123456789abcdef0123456789abcdef'' []
   \<and> on_format_impl ''0123456789abcdef0123456789abcdef'' [] [] = Inl Assertion_failed"
proof -
  have "\<forall>c\<in>set ''0123456789abcdef0123456789abcdef''. \<not> is_directive c \<and> c \<noteq> NUL"
    by (simp add: is_directive_def)
  then have lt: "line_text ''0123456789abcdef0123456789abcdef'' [] =
      Some (''0123456789abcdef0123456789abcdef'', [])"
    by (rule line_text_literal_string)
  then have "matching ''0123456789abcdef0123456789abcdef'' []"
    by (simp only: matching_def option.map_sel option.simps snd_conv)
  moreover have "on_format_impl ''0123456789abcdef0123456789abcdef'' [] [] = Inl Assertion_failed"
    unfolding on_format_impl_line_text [OF lt] by (simp add: max_size_def)
  ultimately show ?thesis ..
qed

text \<open>
  C6, amended. For a format string and a matching argument stream whose text, with the
  terminator, fits in the 32 characters of the buffer, a call adds exactly one line to
  what the sink has received: the text of the whole format string, which holds no
  \<open>NUL\<close>, followed by one \<open>NUL\<close>; all the arguments are read by then. A matching
  call whose text does not fit fails the assertion of the buffer instead.
\<close>

theorem output_once:
  assumes "matching fmt args"
  shows "\<exists>ln. line_text fmt args = Some (ln, []) \<and> NUL \<notin> set ln
     \<and> on_format_impl fmt args log =
         (if length ln + 1 \<le> 32 then Inr (on_output (ln @ [NUL]) log)
          else Inl Assertion_failed)
     \<and> on_output (ln @ [NUL]) log = log @ [ln @ [NUL]]"
proof -
  from assms obtain ln where lt: "line_text fmt args = Some (ln, [])"
    by (rule matching_line_text)
  have "NUL \<notin> set ln"
    using lt by (rule NUL_notin_line_text)
  moreover have "on_format_impl fmt args log =
         (if length ln + 1 \<le> 32 then Inr (on_output (ln @ [NUL]) log)
          else Inl Assertion_failed)"
    unfolding on_format_impl_line_text [OF lt] by (simp add: max_size_def on_output_def)
  moreover have "on_output (ln @ [NUL]) log = log @ [ln @ [NUL]]"
    by (simp add: on_output_def)
  ultimately show ?thesis
    using lt by blast
qed

theorem output_once_witness:
  "matching ''jr C,D'' [Arg_condition condition_nz, Arg_int (- 5)]
   \<and> on_format_impl ''jr C,D'' [Arg_condition condition_nz, Arg_int (- 5)] [''nop'' @ [NUL]] =
       Inr [''nop'' @ [NUL], ''jr nz,$-5'' @ [NUL]]"
proof -
  have lt: "line_text ''jr C,D'' [Arg_condition condition_nz, Arg_int (- 5)] =
      Some (''jr nz,$-5'', [])"
    by (simp add: directive_text_def snprintf_def format_plus_d_def dec_of.simps dec_digit_def)
  then have m: "matching ''jr C,D'' [Arg_condition condition_nz, Arg_int (- 5)]"
    by (simp only: matching_def option.map_sel option.simps snd_conv)
  show ?thesis
    using output_once [OF m, of "[''nop'' @ [NUL]]"] m lt by auto
qed

text \<open>
  C8. A character that is none of \<^verbatim>\<open>A R P N W C D L\<close> reads no argument and is
  appended as it is. In the line a call delivers, every character of the format string
  has its own piece of text, in the order of the format string, and the piece of a
  literal character is that character; so the literal characters of the format string
  occur in the line in their order.
\<close>

theorem literal_characters:
  "(\<not> is_directive c \<longrightarrow>
      format_directive c args out = and_then (append_char c out) (\<lambda>b. Inr (args, b)))
   \<and> (is_directive c \<longleftrightarrow> c \<in> {CHR ''A'', CHR ''R'', CHR ''P'', CHR ''N'', CHR ''W'',
        CHR ''C'', CHR ''D'', CHR ''L''})
   \<and> (on_format_impl fmt args log = Inr log' \<longrightarrow>
        (\<exists>ps. length ps = length (c_str fmt)
           \<and> log' = log @ [concat ps @ [NUL]]
           \<and> (\<forall>i<length ps. \<not> is_directive (c_str fmt ! i) \<longrightarrow> ps ! i = [c_str fmt ! i])
           \<and> subseq (filter (\<lambda>c. \<not> is_directive c) (c_str fmt)) (concat ps)))"
  (is "?step \<and> ?chars \<and> ?call")
proof -
  have step: ?step
    by (simp add: format_directive_literal)
  have chars: ?chars
    by (auto simp: is_directive_def)
  have call: ?call
  proof
    assume "on_format_impl fmt args log = Inr log'"
    then obtain ln rest where lt: "line_text fmt args = Some (ln, rest)"
      and log': "log' = log @ [ln @ [NUL]]"
      by (rule on_format_impl_Inr)
    from line_text_pieces [OF lt] obtain ps where
      ps: "length ps = length (c_str fmt)" "ln = concat ps"
        "\<forall>i<length ps. \<not> is_directive (c_str fmt ! i) \<longrightarrow> ps ! i = [c_str fmt ! i]"
      by blast
    have "subseq (filter (\<lambda>c. \<not> is_directive c) (c_str fmt)) (concat ps)"
      using line_text_literals [OF lt] ps(2) by simp
    with ps log' show "\<exists>ps. length ps = length (c_str fmt)
           \<and> log' = log @ [concat ps @ [NUL]]
           \<and> (\<forall>i<length ps. \<not> is_directive (c_str fmt ! i) \<longrightarrow> ps ! i = [c_str fmt ! i])
           \<and> subseq (filter (\<lambda>c. \<not> is_directive c) (c_str fmt)) (concat ps)"
      by blast
  qed
  from step chars call show ?thesis
    by (intro conjI)
qed

theorem literal_characters_witness:
  "\<not> is_directive (CHR '','')
   \<and> on_format_impl ''ex (sp),P'' [Arg_regp regp_hl, Arg_index_regp index_regp_ix] [] =
       Inr [''ex (sp),ix'' @ [NUL]]
   \<and> format_directive (CHR '','') [Arg_regp regp_hl] \<lparr>buff_size = 2, buff = ''ex''\<rparr> =
       Inr ([Arg_regp regp_hl], \<lparr>buff_size = 3, buff = ''ex,''\<rparr>)
   \<and> (\<exists>ps. length ps = 9 \<and> ''ex (sp),ix'' = concat ps \<and> take 8 ps = map (\<lambda>c. [c]) ''ex (sp),'')"
proof -
  let ?fmt = "''ex (sp),P''" and ?args = "[Arg_regp regp_hl, Arg_index_regp index_regp_ix]"
  have lit: "\<not> is_directive (CHR '','')"
    by (simp add: is_directive_def)
  have lt: "line_text ?fmt ?args = Some (''ex (sp),ix'', [])"
    by (simp add: directive_text_def)
  then have call: "on_format_impl ?fmt ?args [] = Inr [''ex (sp),ix'' @ [NUL]]"
    by (simp add: on_format_impl_line_text max_size_def)
  have step: "format_directive (CHR '','') [Arg_regp regp_hl] \<lparr>buff_size = 2, buff = ''ex''\<rparr> =
       Inr ([Arg_regp regp_hl], \<lparr>buff_size = 3, buff = ''ex,''\<rparr>)"
    using literal_characters [where c = "CHR '',''" and args = "[Arg_regp regp_hl]"
        and out = "\<lparr>buff_size = 2, buff = ''ex''\<rparr>"] lit
    by (simp add: append_char_def max_size_def)
  note literal_characters [where fmt = ?fmt and args = ?args and log = "[]"
      and log' = "[''ex (sp),ix'' @ [NUL]]", THEN conjunct2, THEN conjunct2, rule_format, OF call]
  then obtain ps where ps: "length ps = length (c_str ?fmt)"
    "[''ex (sp),ix'' @ [NUL]] = [] @ [concat ps @ [NUL]]"
    "\<forall>i<length ps. \<not> is_directive (c_str ?fmt ! i) \<longrightarrow> ps ! i = [c_str ?fmt ! i]"
    by blast
  from ps(2) have cat: "''ex (sp),ix'' = concat ps"
    by simp
  have len: "length ps = 9"
    using ps(1) by (simp add: c_str_def)
  have "take 8 ps = map (\<lambda>c. [c]) ''ex (sp),''"
  proof (rule nth_equalityI)
    show "length (take 8 ps) = length (map (\<lambda>c. [c]) ''ex (sp),'')"
      using len by simp
    fix i
    assume "i < length (take 8 ps)"
    then have i: "i < 8"
      by simp
    then have "i \<in> {0, 1, 2, 3, 4, 5, 6, 7}"
      by auto
    then have "\<not> is_directive (c_str ?fmt ! i) \<and> c_str ?fmt ! i = ''ex (sp),'' ! i"
      by (auto simp: c_str_def is_directive_def)
    moreover have "i < length ps"
      using i len by simp
    ultimately have "ps ! i = [''ex (sp),'' ! i]"
      using ps(3) by auto
    moreover have "map (\<lambda>c. [c]) ''ex (sp),'' ! i = [''ex (sp),'' ! i]"
      using i by (intro nth_map) simp
    moreover have "take 8 ps ! i = ps ! i"
      using i by simp
    ultimately show "take 8 ps ! i = map (\<lambda>c. [c]) ''ex (sp),'' ! i"
      by (simp only:)
  qed
  with lit call step len cat show ?thesis
    by blast
qed

subsection \<open>Cells that were never written\<close>

lemma same_effect_Inr: "mem_ok m \<Longrightarrow> same_effect (Inr m) (Inr (written m))"
  by (simp add: same_effect_def)

lemma same_step_Inr: "mem_ok m \<Longrightarrow> same_step (Inr (a, m)) (Inr (a, written m))"
  by (simp add: same_step_def)

lemma same_effect_bind:
  assumes "same_effect r s" and "\<And>m. mem_ok m \<Longrightarrow> same_effect (f m) (g (written m))"
  shows "same_effect (and_then r f) (and_then s g)"
  using assms by (cases r) (auto simp: same_effect_def)

lemma same_step_bind:
  assumes "same_effect r s" and "\<And>m. mem_ok m \<Longrightarrow> same_step (f m) (g (written m))"
  shows "same_step (and_then r f) (and_then s g)"
  using assms by (cases r) (auto simp: same_effect_def same_step_def)

lemma same_step_bind_arg:
  assumes "\<And>a rest. same_step (f a rest) (g a rest)"
  shows "same_step (and_then x (case_prod f)) (and_then x (case_prod g))"
proof (cases x)
  case (Inl e)
  then show ?thesis by (simp add: same_step_def)
next
  case (Inr p)
  then show ?thesis using assms by (cases p) simp
qed

lemma same_step_if:
  assumes "b \<Longrightarrow> same_step x y" and "\<not> b \<Longrightarrow> same_step x' y'"
  shows "same_step (if b then x else x') (if b then y else y')"
  using assms by simp

lemma append_char_mem_same:
  assumes "mem_ok m"
  shows "same_effect (append_char_mem c m) (append_char c (written m))"
proof (cases "mem_size m < max_size")
  case True
  with assms have "mem_size m < length (mem_buff m)"
    by (simp add: mem_ok_def)
  then have "take (Suc (mem_size m)) ((mem_buff m)[mem_size m := c]) =
      take (mem_size m) (mem_buff m) @ [c]"
    by (simp add: take_Suc_conv_app_nth)
  with True assms show ?thesis
    by (simp add: same_effect_def append_char_mem_def append_char_def written_def mem_ok_def)
next
  case False
  then show ?thesis
    by (simp add: same_effect_def append_char_mem_def append_char_def written_def)
qed

lemma append_str_mem_same:
  assumes "mem_ok m"
  shows "same_effect (append_str_mem s m) (append_str s (written m))"
  using assms
proof (induction s arbitrary: m)
  case Nil
  then show ?case by (simp add: same_effect_Inr)
next
  case (Cons c s)
  show ?case
  proof (cases "c = NUL")
    case True
    with Cons.prems show ?thesis by (simp add: same_effect_Inr)
  next
    case False
    have "same_effect (and_then (append_char_mem c m) (append_str_mem s))
        (and_then (append_char c (written m)) (append_str s))"
      using Cons.prems by (intro same_effect_bind append_char_mem_same Cons.IH)
    with False show ?thesis by simp
  qed
qed

lemma c_str_terminated: "c_str (t @ NUL # rest) = c_str t"
  by (induction t) (simp_all add: c_str_def)

lemma append_str_mem_c_str: "append_str_mem s m = append_str_mem (c_str s) m"
proof (induction s arbitrary: m)
  case Nil
  show ?case by (simp add: c_str_def)
next
  case (Cons c s)
  show ?case
  proof (cases "c = NUL")
    case True
    then show ?thesis by (simp add: c_str_def)
  next
    case False
    have "append_str_mem s = append_str_mem (c_str s)"
      by (rule ext) (rule Cons.IH)
    with False show ?thesis
      by (simp add: c_str_Cons)
  qed
qed

lemma append_str_mem_pad:
  "append_str_mem (snprintf_mem n s pad) m = append_str_mem (snprintf n s) m"
proof -
  have "c_str (snprintf_mem n s pad) = c_str (snprintf n s)"
    by (simp add: snprintf_mem_def snprintf_def Let_def c_str_terminated)
  then show ?thesis
    using append_str_mem_c_str [of "snprintf_mem n s pad" m]
      append_str_mem_c_str [of "snprintf n s" m]
    by simp
qed

lemma append_u8_mem_same:
  "mem_ok m \<Longrightarrow> same_effect (append_u8_mem pad n m) (append_u8 n (written m))"
  by (simp add: append_u8_mem_def append_u8_def append_str_mem_pad append_str_mem_same)

lemma append_u16_mem_same:
  "mem_ok m \<Longrightarrow> same_effect (append_u16_mem pad n m) (append_u16 n (written m))"
  by (simp add: append_u16_mem_def append_u16_def append_str_mem_pad append_str_mem_same)

lemma append_disp_mem_same:
  "mem_ok m \<Longrightarrow> same_effect (append_disp_mem pad d m) (append_disp d (written m))"
  by (simp add: append_disp_mem_def append_disp_def append_str_mem_pad append_str_mem_same)

lemmas mem_same =
  append_char_mem_same append_str_mem_same append_u8_mem_same append_u16_mem_same
  append_disp_mem_same

lemma format_directive_mem_same:
  assumes "mem_ok m"
  shows "same_step (format_directive_mem pad c args m) (format_directive c args (written m))"
  unfolding format_directive_mem_def format_directive_def
  by (intro same_step_if same_step_bind_arg same_step_bind mem_same same_step_Inr assms;
      assumption)

lemma format_loop_mem_same:
  assumes "mem_ok m"
  shows "same_step (format_loop_mem pads i fmt args m) (format_loop fmt args (written m))"
  using assms
proof (induction fmt arbitrary: i args m)
  case Nil
  then show ?case by (simp add: same_step_Inr)
next
  case (Cons c p)
  show ?case
  proof (cases "c = NUL")
    case True
    with Cons.prems show ?thesis by (simp add: same_step_Inr)
  next
    case False
    have step: "same_step (format_directive_mem (pads i) c args m)
        (format_directive c args (written m))"
      using Cons.prems by (rule format_directive_mem_same)
    show ?thesis
    proof (cases "format_directive_mem (pads i) c args m")
      case (Inl e)
      with step False show ?thesis
        by (simp add: same_step_def)
    next
      case (Inr r)
      obtain args1 m1 where r: "r = (args1, m1)"
        by (cases r)
      with step Inr have ok: "mem_ok m1"
        and abs: "format_directive c args (written m) = Inr (args1, written m1)"
        by (simp_all add: same_step_def)
      from ok have "same_step (format_loop_mem pads (i + 1) p args1 m1)
          (format_loop p args1 (written m1))"
        by (rule Cons.IH)
      with False Inr r abs show ?thesis
        by simp
    qed
  qed
qed

lemma mem_ok_new: "length cells = max_size \<Longrightarrow> mem_ok (new_output_mem cells)"
  by (simp add: mem_ok_def new_output_mem_def)

lemma written_new: "written (new_output_mem cells) = new_output_buff"
  by (simp add: written_def new_output_mem_def new_output_buff_def)

lemma c_string_at_terminated:
  assumes "NUL \<notin> set ln"
  shows "c_string_at (ln @ NUL # rest) = Inr (ln @ [NUL])"
  using assms by (simp add: c_string_at_def c_str_terminated c_str_NUL_free)

lemma append_char_Inr: "append_char c out = Inr b \<Longrightarrow> buff b = buff out @ [c]"
  by (auto simp: append_char_def split: if_splits)

lemma on_format_impl_mem_eq:
  assumes "length cells = max_size"
  shows "on_format_impl_mem cells pads fmt args log = on_format_impl fmt args log"
proof -
  have loop: "same_step (format_loop_mem pads 0 fmt args (new_output_mem cells))
      (format_loop fmt args new_output_buff)"
    using format_loop_mem_same [OF mem_ok_new [OF assms], of pads 0 fmt args]
    by (simp add: written_new)
  show ?thesis
  proof (cases "format_loop_mem pads 0 fmt args (new_output_mem cells)")
    case (Inl e)
    with loop show ?thesis
      by (simp add: same_step_def on_format_impl_mem_def on_format_impl_def)
  next
    case (Inr r)
    obtain rest m where r: "r = (rest, m)"
      by (cases r)
    with loop Inr have ok: "mem_ok m"
      and abs: "format_loop fmt args new_output_buff = Inr (rest, written m)"
      by (simp_all add: same_step_def)
    have sz: "buff_size new_output_buff \<le> max_size"
      by (simp add: new_output_buff_def)
    from abs sz obtain ln where lt: "line_text fmt args = Some (ln, rest)"
      and w: "written m = new_output_buff\<lparr>buff := buff new_output_buff @ ln,
          buff_size := buff_size new_output_buff + length ln\<rparr>"
      by (rule format_loop_Inr)
    have nul: "NUL \<notin> set ln"
      using lt by (rule NUL_notin_line_text)
    have last: "same_effect (append_char_mem NUL m) (append_char NUL (written m))"
      using ok by (rule append_char_mem_same)
    show ?thesis
    proof (cases "append_char_mem NUL m")
      case (Inl e)
      with last Inr r abs show ?thesis
        by (simp add: same_effect_def on_format_impl_mem_def on_format_impl_def)
    next
      case inr: (Inr m1)
      with last have ok1: "mem_ok m1"
        and abs1: "append_char NUL (written m) = Inr (written m1)"
        by (simp_all add: same_effect_def)
      from w have "buff (written m) = ln"
        by (simp add: new_output_buff_def)
      with abs1 have b: "buff (written m1) = ln @ [NUL]"
        by (simp add: append_char_Inr)
      then have "take (mem_size m1) (mem_buff m1) = ln @ [NUL]"
        by (simp add: written_def)
      then have "mem_buff m1 = ln @ NUL # drop (mem_size m1) (mem_buff m1)"
        using append_take_drop_id [of "mem_size m1" "mem_buff m1"] by simp
      then have "c_string_at (mem_buff m1) = Inr (ln @ [NUL])"
        using c_string_at_terminated [OF nul, of "drop (mem_size m1) (mem_buff m1)"]
        by simp
      with Inr r inr abs abs1 b show ?thesis
        by (simp add: on_format_impl_mem_def on_format_impl_def get_buff_mem_def get_buff_def)
    qed
  qed
qed

lemma on_format_impl_same_line:
  "(\<exists>e. \<forall>log. on_format_impl fmt args log = Inl e)
   \<or> (\<exists>line. \<forall>log. on_format_impl fmt args log = Inr (log @ [line]))"
proof (cases "format_loop fmt args new_output_buff")
  case (Inl e)
  then show ?thesis
    by (simp add: on_format_impl_def)
next
  case (Inr r)
  obtain rest out where r: "r = (rest, out)"
    by (cases r)
  show ?thesis
  proof (cases "append_char NUL out")
    case (Inl e)
    with Inr r show ?thesis
      by (simp add: on_format_impl_def)
  next
    case inr: (Inr b)
    have "\<forall>log. on_format_impl fmt args log = Inr (log @ [get_buff b])"
      using Inr r inr by (simp add: on_format_impl_def on_output_def)
    then show ?thesis
      by blast
  qed
qed

text \<open>
  C9. A call is run on the cells of the buffer and of the pads as they happen to be,
  and on a sink that has received anything before. Whatever two runs find in these
  cells, on equal format strings and argument streams they either fail with the same
  error or deliver the same line, byte for byte, and a run repeated after another
  delivers that line again. The line does not depend on the cells because a run reads
  no cell of the buffer it has not written, the sink stops at the terminator the run
  appends, and a pad is read up to the terminator \<^verbatim>\<open>snprintf\<close> writes.
\<close>

theorem formatting_deterministic:
  "length cells1 = 32 \<and> length cells2 = 32 \<and> fmt1 = fmt2 \<and> args1 = args2 \<longrightarrow>
     ((\<exists>e. on_format_impl_mem cells1 pads1 fmt1 args1 log1 = Inl e
          \<and> on_format_impl_mem cells2 pads2 fmt2 args2 log2 = Inl e)
      \<or> (\<exists>line. on_format_impl_mem cells1 pads1 fmt1 args1 log1 = Inr (log1 @ [line])
            \<and> on_format_impl_mem cells2 pads2 fmt2 args2 log2 = Inr (log2 @ [line])
            \<and> and_then (on_format_impl_mem cells1 pads1 fmt1 args1 log1)
                 (on_format_impl_mem cells2 pads2 fmt2 args2) = Inr (log1 @ [line, line])))
     \<and> on_format_impl_mem cells1 pads1 fmt1 args1 log1 = on_format_impl fmt1 args1 log1"
proof
  assume h: "length cells1 = 32 \<and> length cells2 = 32 \<and> fmt1 = fmt2 \<and> args1 = args2"
  then have eq1: "\<And>log. on_format_impl_mem cells1 pads1 fmt1 args1 log =
      on_format_impl fmt1 args1 log"
    and eq2: "\<And>log. on_format_impl_mem cells2 pads2 fmt2 args2 log =
      on_format_impl fmt1 args1 log"
    by (simp_all add: on_format_impl_mem_eq max_size_def)
  have eq2': "on_format_impl_mem cells2 pads2 fmt2 args2 = on_format_impl fmt1 args1"
    by (rule ext) (rule eq2)
  show "((\<exists>e. on_format_impl_mem cells1 pads1 fmt1 args1 log1 = Inl e
          \<and> on_format_impl_mem cells2 pads2 fmt2 args2 log2 = Inl e)
      \<or> (\<exists>line. on_format_impl_mem cells1 pads1 fmt1 args1 log1 = Inr (log1 @ [line])
            \<and> on_format_impl_mem cells2 pads2 fmt2 args2 log2 = Inr (log2 @ [line])
            \<and> and_then (on_format_impl_mem cells1 pads1 fmt1 args1 log1)
                 (on_format_impl_mem cells2 pads2 fmt2 args2) = Inr (log1 @ [line, line])))
     \<and> on_format_impl_mem cells1 pads1 fmt1 args1 log1 = on_format_impl fmt1 args1 log1"
    unfolding eq1 eq2'
    using on_format_impl_same_line [of fmt1 args1] by auto
qed

theorem formatting_deterministic_witness:
  "length (replicate 32 (CHR ''#'')) = 32
   \<and> length ''0123456789abcdef0123456789abcdef'' = 32
   \<and> on_format_impl_mem (replicate 32 (CHR ''#'')) (\<lambda>i. replicate 32 (CHR ''?''))
        ''L'' [Arg_block_ld block_ld_ldir] [] = Inr [''ldir'' @ [NUL]]
   \<and> on_format_impl_mem ''0123456789abcdef0123456789abcdef'' (\<lambda>i. [])
        ''L'' [Arg_block_ld block_ld_ldir] [''nop'' @ [NUL]] =
       Inr [''nop'' @ [NUL], ''ldir'' @ [NUL]]"
proof -
  let ?c1 = "replicate 32 (CHR ''#'')" and ?c2 = "''0123456789abcdef0123456789abcdef''"
  let ?p1 = "\<lambda>i::nat. replicate 32 (CHR ''?'')" and ?p2 = "\<lambda>i::nat. []::string"
  let ?args = "[Arg_block_ld block_ld_ldir]"
  note t = formatting_deterministic [where ?cells1.0 = ?c1 and ?cells2.0 = ?c2
      and ?pads1.0 = ?p1 and ?pads2.0 = ?p2 and ?fmt1.0 = "''L''" and ?fmt2.0 = "''L''"
      and ?args1.0 = ?args and ?args2.0 = ?args and ?log1.0 = "[]"
      and ?log2.0 = "[''nop'' @ [NUL]]"]
  have h: "length ?c1 = 32 \<and> length ?c2 = 32 \<and> ''L'' = ''L'' \<and> ?args = ?args"
    by simp
  have abs: "on_format_impl ''L'' ?args [] = Inr [''ldir'' @ [NUL]]"
    by (rule on_format_impl_single [where rest = "[]" and log = "[]", simplified])
       (simp_all add: directive_text_def max_size_def)
  from t [rule_format, OF h] have
    alt: "(\<exists>e. on_format_impl_mem ?c1 ?p1 ''L'' ?args [] = Inl e
          \<and> on_format_impl_mem ?c2 ?p2 ''L'' ?args [''nop'' @ [NUL]] = Inl e)
      \<or> (\<exists>line. on_format_impl_mem ?c1 ?p1 ''L'' ?args [] = Inr ([] @ [line])
            \<and> on_format_impl_mem ?c2 ?p2 ''L'' ?args [''nop'' @ [NUL]] =
                Inr ([''nop'' @ [NUL]] @ [line])
            \<and> and_then (on_format_impl_mem ?c1 ?p1 ''L'' ?args [])
                 (on_format_impl_mem ?c2 ?p2 ''L'' ?args) = Inr ([] @ [line, line]))"
    and eq: "on_format_impl_mem ?c1 ?p1 ''L'' ?args [] = on_format_impl ''L'' ?args []"
    by blast+
  from eq abs have one: "on_format_impl_mem ?c1 ?p1 ''L'' ?args [] = Inr [''ldir'' @ [NUL]]"
    by simp
  with alt have "on_format_impl_mem ?c2 ?p2 ''L'' ?args [''nop'' @ [NUL]] =
      Inr [''nop'' @ [NUL], ''ldir'' @ [NUL]]"
    by auto
  with one show ?thesis
    by simp
qed

text \<open>
  C10. The terminator is written by the same checked append as every other character:
  after the loop the call is that append of \<open>NUL\<close>, and it fails when the loop has
  filled all 32 cells. So the buffer handed to the sink holds at most 32 characters
  with the terminator, and the line before the terminator at most 31: a format string
  of 31 literal characters is delivered, one of 32 fails the assertion.
\<close>

theorem terminator_checked:
  "(format_loop fmt args new_output_buff = Inr (rest, out) \<longrightarrow>
      on_format_impl fmt args log =
        and_then (append_char NUL out) (\<lambda>b. Inr (on_output (get_buff b) log))
      \<and> (buff_size out = 32 \<longrightarrow> on_format_impl fmt args log = Inl Assertion_failed))
   \<and> (on_format_impl fmt args log = Inr log' \<longrightarrow>
        (\<exists>ln. log' = log @ [ln @ [NUL]] \<and> NUL \<notin> set ln \<and> length ln \<le> 31
           \<and> length (ln @ [NUL]) \<le> 32))
   \<and> on_format_impl ''0123456789abcdef0123456789abcde'' [] log =
        Inr (log @ [''0123456789abcdef0123456789abcde'' @ [NUL]])
   \<and> length ''0123456789abcdef0123456789abcde'' = 31
   \<and> on_format_impl ''0123456789abcdef0123456789abcdef'' [] log = Inl Assertion_failed"
  (is "?append \<and> ?bound \<and> ?ok \<and> ?len \<and> ?overflow")
proof -
  have append: ?append
    by (simp add: on_format_impl_def append_char_def max_size_def)
  have bound: ?bound
  proof
    assume "on_format_impl fmt args log = Inr log'"
    then obtain ln r where lt: "line_text fmt args = Some (ln, r)"
      and len: "length ln < max_size" and log': "log' = log @ [ln @ [NUL]]"
      by (rule on_format_impl_Inr)
    have "NUL \<notin> set ln"
      using lt by (rule NUL_notin_line_text)
    with len log' show "\<exists>ln. log' = log @ [ln @ [NUL]] \<and> NUL \<notin> set ln \<and> length ln \<le> 31
           \<and> length (ln @ [NUL]) \<le> 32"
      by (intro exI [of _ ln]) (simp add: max_size_def)
  qed
  have "\<forall>c\<in>set ''0123456789abcdef0123456789abcde''. \<not> is_directive c \<and> c \<noteq> NUL"
    by (simp add: is_directive_def)
  then have "line_text ''0123456789abcdef0123456789abcde'' [] =
      Some (''0123456789abcdef0123456789abcde'', [])"
    by (rule line_text_literal_string)
  then have ok: ?ok
    by (simp add: on_format_impl_line_text max_size_def)
  have "\<forall>c\<in>set ''0123456789abcdef0123456789abcdef''. \<not> is_directive c \<and> c \<noteq> NUL"
    by (simp add: is_directive_def)
  then have "line_text ''0123456789abcdef0123456789abcdef'' [] =
      Some (''0123456789abcdef0123456789abcdef'', [])"
    by (rule line_text_literal_string)
  then have overflow: ?overflow
    by (simp add: on_format_impl_line_text max_size_def)
  have len: ?len
    by simp
  from append bound ok len overflow show ?thesis
    by (intro conjI)
qed

theorem terminator_checked_witness:
  "on_format_impl ''0123456789abcdef0123456789abcde'' [] [] =
     Inr [''0123456789abcdef0123456789abcde'' @ [NUL]]
   \<and> (\<exists>ln. [''0123456789abcdef0123456789abcde'' @ [NUL]] = [ln @ [NUL]] \<and> length ln \<le> 31)
   \<and> format_loop ''0123456789abcdef0123456789abcdef'' [] new_output_buff =
       Inr ([], \<lparr>buff_size = 32, buff = ''0123456789abcdef0123456789abcdef''\<rparr>)
   \<and> on_format_impl ''0123456789abcdef0123456789abcdef'' [] [] = Inl Assertion_failed"
proof -
  note t = terminator_checked [where fmt = "''0123456789abcdef0123456789abcde''"
      and args = "[]" and log = "[]"
      and log' = "[''0123456789abcdef0123456789abcde'' @ [NUL]]"]
  from t have ok: "on_format_impl ''0123456789abcdef0123456789abcde'' [] [] =
     Inr [''0123456789abcdef0123456789abcde'' @ [NUL]]"
    by simp
  from t [THEN conjunct2, THEN conjunct1, rule_format, OF ok]
  have ex: "\<exists>ln. [''0123456789abcdef0123456789abcde'' @ [NUL]] = [ln @ [NUL]] \<and> length ln \<le> 31"
    by auto
  have "\<forall>c\<in>set ''0123456789abcdef0123456789abcdef''. \<not> is_directive c \<and> c \<noteq> NUL"
    by (simp add: is_directive_def)
  then have "line_text ''0123456789abcdef0123456789abcdef'' [] =
      Some (''0123456789abcdef0123456789abcdef'', [])"
    by (rule line_text_literal_string)
  then have "format_loop ''0123456789abcdef0123456789abcdef'' [] new_output_buff =
      (if buff_size new_output_buff + length ''0123456789abcdef0123456789abcdef'' \<le> max_size
       then Inr ([], new_output_buff\<lparr>
              buff := buff new_output_buff @ ''0123456789abcdef0123456789abcdef'',
              buff_size := buff_size new_output_buff
                + length ''0123456789abcdef0123456789abcdef''\<rparr>)
       else Inl Assertion_failed)"
    by (rule format_loop_line_text) (simp add: new_output_buff_def)
  also have "\<dots> = Inr ([], \<lparr>buff_size = 32, buff = ''0123456789abcdef0123456789abcdef''\<rparr>)"
    by (simp add: new_output_buff_def max_size_def)
  finally have loop: "format_loop ''0123456789abcdef0123456789abcdef'' [] new_output_buff =
       Inr ([], \<lparr>buff_size = 32, buff = ''0123456789abcdef0123456789abcdef''\<rparr>)" .
  have "on_format_impl ''0123456789abcdef0123456789abcdef'' [] [] = Inl Assertion_failed"
    by (rule terminator_checked [where fmt = "''0123456789abcdef0123456789abcdef''"
        and args = "[]" and log = "[]" and rest = "[]"
        and out = "\<lparr>buff_size = 32, buff = ''0123456789abcdef0123456789abcdef''\<rparr>",
        THEN conjunct1, rule_format, OF loop, THEN conjunct2, rule_format]) simp
  with ok ex loop show ?thesis
    by (intro conjI)
qed

end
